theory Spec2Isabelle
  imports Complex_Main "HOL-Library.Word" "HOL-Library.Monad_Syntax"
begin

unbundle bit_operations_syntax

section \<open>Data model of \<open>SCP::Plot\<close>\<close>

text \<open>
  The palette: \<open>enum {BLACK, RED, ..., WHITE}\<close>, sixteen values 0..15. Colours are
  passed around as \<open>int8_t\<close>, modelled as \<open>8 word\<close>.
\<close>

type_synonym int8 = "8 word"

definition BLACK :: int8 where "BLACK = 0"
definition RED :: int8 where "RED = 1"
definition GREEN :: int8 where "GREEN = 2"
definition YELLOW :: int8 where "YELLOW = 3"
definition BLUE :: int8 where "BLUE = 4"
definition MAGENTA :: int8 where "MAGENTA = 5"
definition CYAN :: int8 where "CYAN = 6"
definition BRIGHT_GRAY :: int8 where "BRIGHT_GRAY = 7"
definition DARK_GRAY :: int8 where "DARK_GRAY = 8"
definition BRIGHT_RED :: int8 where "BRIGHT_RED = 9"
definition BRIGHT_GREEN :: int8 where "BRIGHT_GREEN = 10"
definition BRIGHT_YELLOW :: int8 where "BRIGHT_YELLOW = 11"
definition BRIGHT_BLUE :: int8 where "BRIGHT_BLUE = 12"
definition BRIGHT_MAGENTA :: int8 where "BRIGHT_MAGENTA = 13"
definition BRIGHT_CYAN :: int8 where "BRIGHT_CYAN = 14"
definition WHITE :: int8 where "WHITE = 15"

text \<open>\<open>enum{EMPTY=' ', BLOCK='\0'}\<close>: the two glyph markers of a cell.\<close>

definition EMPTY :: char where "EMPTY = CHR '' ''"
definition BLOCK :: char where "BLOCK = CHR 0x00"

text \<open>\<open>struct Cell { char ch; int8_t co; }\<close>, also the key of the two data maps.\<close>

record Cell =
  ch :: char
  co :: int8

text \<open>
  A \<open>double\<close>. The finite values are modelled by exact rationals: rounding, overflow to
  infinity and the sign of zero are not modelled. The infinities are kept because the
  running bounds start at them, and \<open>NaN\<close> because their difference is one.
\<close>

datatype double = Fin rat | PInf | NInf | NaN

fun dneg :: "double \<Rightarrow> double" where
  "dneg (Fin a) = Fin (- a)"
| "dneg PInf = NInf"
| "dneg NInf = PInf"
| "dneg NaN = NaN"

fun dsub :: "double \<Rightarrow> double \<Rightarrow> double" where
  "dsub (Fin a) (Fin b) = Fin (a - b)"
| "dsub NaN _ = NaN"
| "dsub _ NaN = NaN"
| "dsub PInf PInf = NaN"
| "dsub NInf NInf = NaN"
| "dsub PInf _ = PInf"
| "dsub NInf _ = NInf"
| "dsub (Fin a) PInf = NInf"
| "dsub (Fin a) NInf = PInf"

text \<open>Sign of a product or quotient with an infinite operand: \<open>s\<close> is the product of the signs.\<close>

definition dinf :: "rat \<Rightarrow> double" where
  "dinf s = (if s = 0 then NaN else if 0 < s then PInf else NInf)"

fun dsgn :: "double \<Rightarrow> rat" where
  "dsgn (Fin a) = sgn a"
| "dsgn PInf = 1"
| "dsgn NInf = - 1"
| "dsgn NaN = 0"

fun dmul :: "double \<Rightarrow> double \<Rightarrow> double" where
  "dmul (Fin a) (Fin b) = Fin (a * b)"
| "dmul NaN _ = NaN"
| "dmul _ NaN = NaN"
| "dmul a b = dinf (dsgn a * dsgn b)"

fun ddiv :: "double \<Rightarrow> double \<Rightarrow> double" where
  "ddiv (Fin a) (Fin b) = (if b = 0 then dinf (sgn a) else Fin (a / b))"
| "ddiv NaN _ = NaN"
| "ddiv _ NaN = NaN"
| "ddiv (Fin a) _ = Fin 0"
| "ddiv PInf (Fin b) = (if b < 0 then NInf else PInf)"
| "ddiv NInf (Fin b) = (if b < 0 then PInf else NInf)"
| "ddiv _ _ = NaN"

text \<open>\<open>a > b\<close> and \<open>a < b\<close> on doubles: false as soon as one side is \<open>NaN\<close>.\<close>

fun dless :: "double \<Rightarrow> double \<Rightarrow> bool" where
  "dless (Fin a) (Fin b) = (a < b)"
| "dless NaN _ = False"
| "dless _ NaN = False"
| "dless NInf NInf = False"
| "dless NInf _ = True"
| "dless _ NInf = False"
| "dless PInf _ = False"
| "dless _ PInf = True"

definition of_int_d :: "int \<Rightarrow> double" where
  "of_int_d n = Fin (of_int n)"

text \<open>
  Conversion of a \<open>double\<close> to \<open>int\<close>, as the initialisation \<open>int x1 = <double>\<close> and the
  call \<open>setCell(<double>, ...)\<close> do it: the fractional part is discarded (rounding
  towards zero). The behaviour is undefined (\<open>None\<close>) when the truncated value does not
  fit a 32-bit \<open>int\<close>, as for the infinities and \<open>NaN\<close>.
\<close>

definition trunc :: "rat \<Rightarrow> int" where
  "trunc q = (if 0 \<le> q then \<lfloor>q\<rfloor> else \<lceil>q\<rceil>)"

definition INT_MIN :: int where "INT_MIN = - (2 ^ 31)"
definition INT_MAX :: int where "INT_MAX = 2 ^ 31 - 1"

definition int_ok :: "int \<Rightarrow> bool" where
  "int_ok v = (INT_MIN \<le> v \<and> v \<le> INT_MAX)"

fun to_int :: "double \<Rightarrow> int option" where
  "to_int (Fin q) = (if INT_MIN \<le> trunc q \<and> trunc q \<le> INT_MAX then Some (trunc q) else None)"
| "to_int _ = None"

text \<open>\<open>struct Point { double x, y; }\<close> and \<open>struct Line { Point a, b; }\<close>.\<close>

record Point =
  pt_x :: double
  pt_y :: double

record Line =
  ln_a :: Point
  ln_b :: Point

text \<open>
  The members of \<open>Plot\<close>. \<open>printBuf\<close> is \<open>None\<close> for \<open>nullptr\<close>, otherwise the
  row-major array of cells. The two \<open>unordered_map\<close>s are association lists with
  distinct keys; their order stands for the iteration order, which C++ leaves
  unspecified, and no theorem below depends on where a new key is put.
\<close>

record Plot =
  plot_w :: int
  plot_h :: int
  printBuf :: "Cell list option"
  background :: int8
  plot_range :: bool
  invertedY :: bool
  topLeft :: Point
  plot_dx :: double
  plot_dy :: double
  minX :: double
  maxX :: double
  minY :: double
  maxY :: double
  points :: "(Cell \<times> Point list) list"
  lines :: "(Cell \<times> Line list) list"
  yFormat :: string
  xFormat :: string

section \<open>Integer promotion of the attribute arithmetic\<close>

text \<open>
  \<open>c.co\<close>, \<open>color\<close> and \<open>background\<close> are \<open>int8_t\<close>; \<open>&\<close>, \<open>|\<close> and \<open><<\<close> promote them to
  \<open>int\<close> (sign extension, \<open>scast\<close>), and the assignment to \<open>c.co\<close> keeps the low eight
  bits (\<open>ucast\<close>). The shift of a negative value is the two's-complement shift, as
  C++20 defines it.
\<close>

type_synonym cint = "32 word"

definition promote :: "int8 \<Rightarrow> cint" where
  "promote v = scast v"

definition narrow :: "cint \<Rightarrow> int8" where
  "narrow v = ucast v"

section \<open>The cell store\<close>

text \<open>\<open>clearPlot\<close>: every cell becomes \<open>{EMPTY, background<<4|background}\<close>; nothing happens on \<open>nullptr\<close>.\<close>

definition clearPlot :: "Plot \<Rightarrow> Plot" where
  "clearPlot s =
     (case printBuf s of
        None \<Rightarrow> s
      | Some buf \<Rightarrow>
          s\<lparr>printBuf := Some (map (\<lambda>_. \<lparr>ch = EMPTY,
               co = narrow (push_bit 4 (promote (background s)) OR promote (background s))\<rparr>) buf)\<rparr>)"

text \<open>
  \<open>setSize\<close>: \<open>new Cell[w*h]\<close> throws for a negative product (\<open>None\<close>); the fresh cells
  are indeterminate until \<open>clearPlot\<close> overwrites all of them. The product is taken in
  unbounded integers.
\<close>

definition setSize :: "int \<Rightarrow> int \<Rightarrow> Plot \<Rightarrow> Plot option" where
  "setSize length' lines' s =
     (if length' * lines' < 0 then None
      else Some (clearPlot (s\<lparr>plot_w := length', plot_h := lines',
             printBuf := Some (replicate (nat (length' * lines')) \<lparr>ch = EMPTY, co = 0\<rparr>)\<rparr>)))"

definition setBackgroundColor :: "int8 \<Rightarrow> Plot \<Rightarrow> Plot" where
  "setBackgroundColor color s = s\<lparr>background := color\<rparr>"

definition invertYAxis :: "bool \<Rightarrow> Plot \<Rightarrow> Plot" where
  "invertYAxis a s = s\<lparr>invertedY := a\<rparr>"

definition setDrawRange :: "double \<Rightarrow> double \<Rightarrow> double \<Rightarrow> double \<Rightarrow> Plot \<Rightarrow> Plot" where
  "setDrawRange x1 y1 x2 y2 s =
     clearPlot (s\<lparr>topLeft := \<lparr>pt_x = x1, pt_y = y1\<rparr>,
                  plot_dx := dsub x2 x1,
                  plot_dy := dsub y2 y1,
                  plot_range := (dsub x2 x1 \<noteq> Fin 0)\<rparr>)"

definition clearData :: "Plot \<Rightarrow> Plot" where
  "clearData s =
     (clearPlot s)\<lparr>minX := PInf, minY := PInf, maxX := dneg PInf, maxY := dneg PInf,
                   points := [], lines := []\<rparr>"

definition updateXYMinMax :: "Point \<Rightarrow> Plot \<Rightarrow> Plot" where
  "updateXYMinMax p s =
     (let s1 = (if dless (pt_x p) (minX s) then s\<lparr>minX := pt_x p\<rparr> else s);
          s2 = (if dless (pt_y p) (minY s1) then s1\<lparr>minY := pt_y p\<rparr> else s1);
          s3 = (if dless (maxX s2) (pt_x p) then s2\<lparr>maxX := pt_x p\<rparr> else s2)
      in (if dless (maxY s3) (pt_y p) then s3\<lparr>maxY := pt_y p\<rparr> else s3))"

text \<open>
  \<open>setCell\<close>. Outside the grid it returns at once. Inside, \<open>y/2\<close> and \<open>y%2\<close> act on a
  non-negative \<open>y\<close>, where C++'s truncating division agrees with \<open>div\<close> and \<open>mod\<close>.
  Writing through a null \<open>printBuf\<close>, or past the end of the array, is undefined
  behaviour: \<open>None\<close>.
\<close>

definition setCell_block :: "bool \<Rightarrow> int \<Rightarrow> int8 \<Rightarrow> Cell \<Rightarrow> Cell" where
  "setCell_block inverted y color c =
     (let c1 = (if ch c = EMPTY then c\<lparr>ch := BLOCK\<rparr> else c);
          y1 = (if inverted then y + 1 else y)
      in c1\<lparr>co := (if y1 mod 2 \<noteq> 0
                    then narrow ((promote (co c1) AND 0x0f) OR push_bit 4 (promote color))
                    else narrow ((promote (co c1) AND 0xf0) OR promote color))\<rparr>)"

definition setCell_char :: "int8 \<Rightarrow> int8 \<Rightarrow> char \<Rightarrow> Cell \<Rightarrow> Cell" where
  "setCell_char bg color character c =
     (let c1 =
        (if ch c = EMPTY then
           c\<lparr>co := narrow ((promote (co c) AND 0xf0) OR promote color)\<rparr>
         else if ch c = BLOCK then
           c\<lparr>co := (if (promote (co c) AND 0x0f) \<noteq> promote bg
                     then narrow (push_bit 4 (promote (co c)) OR promote color)
                     else narrow ((promote (co c) AND 0xf0) OR promote color))\<rparr>
         else if ch c \<noteq> EMPTY \<and> ch c \<noteq> character then
           c\<lparr>co := narrow (push_bit 4 (promote (co c)) OR promote color)\<rparr>
         else c)
      in c1\<lparr>ch := character\<rparr>)"

definition setCell :: "int \<Rightarrow> int \<Rightarrow> int8 \<Rightarrow> char \<Rightarrow> Plot \<Rightarrow> Plot option" where
  "setCell x y color character s =
     (if x < 0 \<or> x \<ge> plot_w s \<or> y < 0 \<or> y \<ge> plot_h s * 2 then Some s
      else
        (case printBuf s of
           None \<Rightarrow> None
         | Some buf \<Rightarrow>
             (let i = nat (x + (y div 2) * plot_w s) in
              if i < length buf then
                Some (s\<lparr>printBuf := Some (buf[i :=
                   (if character = CHR 0x00
                    then setCell_block (invertedY s) y color (buf ! i)
                    else setCell_char (background s) color character (buf ! i))])\<rparr>)
              else None)))"

section \<open>The rasterizer\<close>

text \<open>
  The coordinate mapping, written out three times in the source:
  \<open>(p.x-topLeft.x)*w/dx\<close> and \<open>(p.y-topLeft.y)*h*2/dy\<close>, computed in \<open>double\<close>
  (where \<open>dx\<close>, \<open>dy\<close> are the members) and then converted to \<open>int\<close>.
\<close>

definition mapX :: "Plot \<Rightarrow> Point \<Rightarrow> double" where
  "mapX s p = ddiv (dmul (dsub (pt_x p) (pt_x (topLeft s))) (of_int_d (plot_w s))) (plot_dx s)"

definition mapY :: "Plot \<Rightarrow> Point \<Rightarrow> double" where
  "mapY s p =
     ddiv (dmul (dmul (dsub (pt_y p) (pt_y (topLeft s))) (of_int_d (plot_h s))) (of_int_d 2))
          (plot_dy s)"

definition printPoint :: "Point \<Rightarrow> int8 \<Rightarrow> char \<Rightarrow> Plot \<Rightarrow> Plot option" where
  "printPoint p color character s =
     do {
       x \<leftarrow> to_int (mapX s p);
       y \<leftarrow> to_int (mapY s p);
       setCell x y color character s
     }"

text \<open>
  Arithmetic on \<open>int\<close>. The result of \<open>+\<close>, \<open>-\<close>, \<open>*\<close>, unary \<open>-\<close> or \<open>abs\<close> that does
  not fit a 32-bit \<open>int\<close> is undefined behaviour in C++: \<open>None\<close>.
\<close>

definition checked :: "int \<Rightarrow> int option" where
  "checked v = (if int_ok v then Some v else None)"

text \<open>
  The \<open>while(true)\<close> loop of \<open>printLine\<close>. \<open>x2 y2 dx dy sx sy\<close> are its constants,
  \<open>x1 y1 e1\<close> its variables. \<open>None\<close> is a loop that does not return, or one that runs
  into undefined behaviour: an overflow of \<open>e1*2\<close>, \<open>-dy\<close>, \<open>e1 - dy\<close>, \<open>x1 + sx\<close>,
  \<open>e1 + dx\<close> or \<open>y1 + sy\<close>, or a \<open>setCell\<close> that is undefined.
\<close>

partial_function (option) printLine_loop ::
  "int \<Rightarrow> int \<Rightarrow> int \<Rightarrow> int \<Rightarrow> int \<Rightarrow> int \<Rightarrow> int8 \<Rightarrow> char \<Rightarrow> int \<Rightarrow> int \<Rightarrow> int \<Rightarrow> Plot \<Rightarrow> Plot option"
where
  "printLine_loop x2 y2 dx dy sx sy color character x1 y1 e1 s =
     Option.bind (setCell x1 y1 color character s) (\<lambda>s'.
       if x1 = x2 \<and> y1 = y2 then Some s'
       else
         Option.bind (checked (e1 * 2)) (\<lambda>e2.
         Option.bind (checked (- dy)) (\<lambda>ndy.
         Option.bind (if e1 > ndy then checked (e1 - dy) else Some e1) (\<lambda>e1'.
         Option.bind (if e1 > ndy then checked (x1 + sx) else Some x1) (\<lambda>x1'.
         Option.bind (if e2 < dx then checked (e1' + dx) else Some e1') (\<lambda>e1''.
         Option.bind (if e2 < dx then checked (y1 + sy) else Some y1) (\<lambda>y1'.
           printLine_loop x2 y2 dx dy sx sy color character x1' y1' e1'' s')))))))"

declare printLine_loop.simps [code]

definition printLine :: "Line \<Rightarrow> int8 \<Rightarrow> char \<Rightarrow> Plot \<Rightarrow> Plot option" where
  "printLine l color character s =
     do {
       x1 \<leftarrow> to_int (mapX s (ln_a l));
       y1 \<leftarrow> to_int (mapY s (ln_a l));
       x2 \<leftarrow> to_int (mapX s (ln_b l));
       y2 \<leftarrow> to_int (mapY s (ln_b l));
       ax \<leftarrow> checked (x2 - x1);
       dx \<leftarrow> checked \<bar>ax\<bar>;
       ay \<leftarrow> checked (y2 - y1);
       dy \<leftarrow> checked \<bar>ay\<bar>;
       e1 \<leftarrow> checked (dx - dy);
       printLine_loop x2 y2 dx dy (if x1 < x2 then 1 else - 1) (if y1 < y2 then 1 else - 1)
         color character x1 y1 e1 s
     }"

text \<open>
  The same loop with the call of \<open>setCell\<close> replaced by a record of its coordinates:
  the sequence of cells the loop visits, in order.
\<close>

partial_function (option) printLine_cells ::
  "int \<Rightarrow> int \<Rightarrow> int \<Rightarrow> int \<Rightarrow> int \<Rightarrow> int \<Rightarrow> int \<Rightarrow> int \<Rightarrow> int \<Rightarrow> (int \<times> int) list option"
where
  "printLine_cells x2 y2 dx dy sx sy x1 y1 e1 =
     (if x1 = x2 \<and> y1 = y2 then Some [(x1, y1)]
      else
        Option.bind (checked (e1 * 2)) (\<lambda>e2.
        Option.bind (checked (- dy)) (\<lambda>ndy.
        Option.bind (if e1 > ndy then checked (e1 - dy) else Some e1) (\<lambda>e1'.
        Option.bind (if e1 > ndy then checked (x1 + sx) else Some x1) (\<lambda>x1'.
        Option.bind (if e2 < dx then checked (e1' + dx) else Some e1') (\<lambda>e1''.
        Option.bind (if e2 < dx then checked (y1 + sy) else Some y1) (\<lambda>y1'.
        Option.bind (printLine_cells x2 y2 dx dy sx sy x1' y1' e1'')
          (\<lambda>cells. Some ((x1, y1) # cells)))))))))"

declare printLine_cells.simps [code]

text \<open>
  The cells visited for the mapped endpoints \<open>(x1, y1)\<close> and \<open>(x2, y2)\<close>, with the
  initialisations of \<open>printLine\<close> in front.
\<close>

definition line_cells :: "int \<Rightarrow> int \<Rightarrow> int \<Rightarrow> int \<Rightarrow> (int \<times> int) list option" where
  "line_cells x1 y1 x2 y2 =
     do {
       ax \<leftarrow> checked (x2 - x1);
       dx \<leftarrow> checked \<bar>ax\<bar>;
       ay \<leftarrow> checked (y2 - y1);
       dy \<leftarrow> checked \<bar>ay\<bar>;
       e1 \<leftarrow> checked (dx - dy);
       printLine_cells x2 y2 dx dy (if x1 < x2 then 1 else - 1) (if y1 < y2 then 1 else - 1)
         x1 y1 e1
     }"

section \<open>The plot aggregator\<close>

text \<open>
  \<open>m[key].push_back(v)\<close> on an \<open>unordered_map\<close> of vectors. The list holds the keys in
  the order of their first use; the order in which C++ iterates over the container is
  unspecified, and the properties of \<open>render\<close> below are stated for a list in any order.
\<close>

fun push_back_at :: "'k \<Rightarrow> 'v \<Rightarrow> ('k \<times> 'v list) list \<Rightarrow> ('k \<times> 'v list) list" where
  "push_back_at k v [] = [(k, [v])]"
| "push_back_at k v ((k', vs) # m) =
     (if k' = k then (k', vs @ [v]) # m else (k', vs) # push_back_at k v m)"

text \<open>A range-based \<open>for\<close> whose body may be undefined.\<close>

fun for_each :: "('a \<Rightarrow> 's \<Rightarrow> 's option) \<Rightarrow> 'a list \<Rightarrow> 's \<Rightarrow> 's option" where
  "for_each f [] s = Some s"
| "for_each f (v # vs) s = Option.bind (f v s) (for_each f vs)"

definition point :: "double \<Rightarrow> double \<Rightarrow> int8 \<Rightarrow> char \<Rightarrow> Plot \<Rightarrow> Plot option" where
  "point x y color character s =
     (let p = \<lparr>pt_x = x, pt_y = y\<rparr>;
          s1 = s\<lparr>points := push_back_at \<lparr>ch = character, co = color\<rparr> p (points s)\<rparr>
      in if plot_range s1 then printPoint p color character s1
         else Some (updateXYMinMax p s1))"

definition line :: "double \<Rightarrow> double \<Rightarrow> double \<Rightarrow> double \<Rightarrow> int8 \<Rightarrow> char \<Rightarrow> Plot \<Rightarrow> Plot option" where
  "line x1 y1 x2 y2 color character s =
     (let l = \<lparr>ln_a = \<lparr>pt_x = x1, pt_y = y1\<rparr>, ln_b = \<lparr>pt_x = x2, pt_y = y2\<rparr>\<rparr>;
          s1 = s\<lparr>lines := push_back_at \<lparr>ch = character, co = color\<rparr> l (lines s)\<rparr>
      in if plot_range s1 then printLine l color character s1
         else Some (updateXYMinMax (ln_b l) (updateXYMinMax (ln_a l) s1)))"

definition render :: "Plot \<Rightarrow> Plot option" where
  "render s =
     (let s1 = (if \<not> plot_range s
                then s\<lparr>plot_dx := dsub (maxX s) (minX s),
                       plot_dy := dsub (maxY s) (minY s),
                       topLeft := \<lparr>pt_x = minX s, pt_y = minY s\<rparr>\<rparr>
                else s)
      in do {
        s2 \<leftarrow> for_each (\<lambda>c. for_each (\<lambda>l. printLine l (co (fst c)) (ch (fst c))) (snd c))
                (lines s1) s1;
        for_each (\<lambda>c. for_each (\<lambda>p. printPoint p (co (fst c)) (ch (fst c))) (snd c))
                (points s2) s2
      })"

text \<open>
  \<open>Plot()\<close>: the member initialisers. \<open>topLeft\<close>, \<open>dx\<close> and \<open>dy\<close> have none and start
  indeterminate; they are parameters here. \<open>Plot(length, lines)\<close> then calls \<open>setSize\<close>.
\<close>

definition Plot_default :: "Point \<Rightarrow> double \<Rightarrow> double \<Rightarrow> Plot" where
  "Plot_default tl0 dx0 dy0 =
     \<lparr>plot_w = 10, plot_h = 10, printBuf = None, background = BLACK,
      plot_range = False, invertedY = False, topLeft = tl0, plot_dx = dx0, plot_dy = dy0,
      minX = PInf, maxX = dneg PInf, minY = PInf, maxY = dneg PInf,
      points = [], lines = [], yFormat = [], xFormat = []\<rparr>"

definition Plot_sized :: "Point \<Rightarrow> double \<Rightarrow> double \<Rightarrow> int \<Rightarrow> int \<Rightarrow> Plot option" where
  "Plot_sized tl0 dx0 dy0 length' lines' = setSize length' lines' (Plot_default tl0 dx0 dy0)"

text \<open>The remaining setters: each assigns one member.\<close>

definition setXAxisFormat :: "string \<Rightarrow> Plot \<Rightarrow> Plot" where
  "setXAxisFormat format s = s\<lparr>xFormat := format\<rparr>"

definition setYAxisFormat :: "string \<Rightarrow> Plot \<Rightarrow> Plot" where
  "setYAxisFormat format s = s\<lparr>yFormat := format\<rparr>"

section \<open>Vocabulary of the properties\<close>

subsection \<open>Cells and the grid\<close>

text \<open>
  The two colours packed in \<open>co\<close>: bits 0-3 and bits 4-7. The index \<open>x+(y/2)*w\<close>
  of the cell that \<open>setCell\<close> addresses, and the negation of its bounds test.
\<close>

definition lower_nibble :: "int8 \<Rightarrow> int8" where
  "lower_nibble v = v AND 0x0f"

definition upper_nibble :: "int8 \<Rightarrow> int8" where
  "upper_nibble v = drop_bit 4 v"

definition cell_index :: "Plot \<Rightarrow> int \<Rightarrow> int \<Rightarrow> nat" where
  "cell_index s x y = nat (x + (y div 2) * plot_w s)"

definition in_grid :: "Plot \<Rightarrow> int \<Rightarrow> int \<Rightarrow> bool" where
  "in_grid s x y = (0 \<le> x \<and> x < plot_w s \<and> 0 \<le> y \<and> y < plot_h s * 2)"

text \<open>The first cell of the buffer of a result, and a glyph that a cell does not show.\<close>

definition first_cell :: "Plot option \<Rightarrow> Cell option" where
  "first_cell r =
     (case r of
        None \<Rightarrow> None
      | Some s \<Rightarrow> (case printBuf s of None \<Rightarrow> None | Some [] \<Rightarrow> None | Some (c # cs) \<Rightarrow> Some c))"

definition glyph_absent :: "char \<Rightarrow> nat \<Rightarrow> Plot \<Rightarrow> bool" where
  "glyph_absent g j s = (case printBuf s of None \<Rightarrow> True | Some buf \<Rightarrow> ch (buf ! j) \<noteq> g)"

subsection \<open>The coordinate mapping as the specification words it\<close>

text \<open>
  The specification's \<open>col = floor((x - origin.x) * width / dx)\<close> and
  \<open>subrow = floor((y - origin.y) * (2*height) / dy)\<close>, to compare \<open>mapX\<close> and \<open>mapY\<close>
  with.
\<close>

definition spec_col :: "rat \<Rightarrow> rat \<Rightarrow> int \<Rightarrow> rat \<Rightarrow> int" where
  "spec_col x ox w dx = \<lfloor>(x - ox) * of_int w / dx\<rfloor>"

definition spec_subrow :: "rat \<Rightarrow> rat \<Rightarrow> int \<Rightarrow> rat \<Rightarrow> int" where
  "spec_subrow y oy h dy = \<lfloor>(y - oy) * (2 * of_int h) / dy\<rfloor>"

subsection \<open>The walk of a line\<close>

text \<open>
  A sequence of cells in which each differs from its predecessor by at most 1 in each
  coordinate. The invariant of the error term: with \<open>rx\<close> and \<open>ry\<close> the steps that
  remain in \<open>x\<close> and \<open>y\<close>, \<open>e1 = dx - dy + rx * dy - ry * dx\<close>, and
  \<open>rx * dy - ry * dx\<close> stays in a band that depends on the steeper direction.
\<close>

fun connected8 :: "(int \<times> int) list \<Rightarrow> bool" where
  "connected8 [] = True"
| "connected8 [a] = True"
| "connected8 (a # b # cs) =
     (\<bar>fst b - fst a\<bar> \<le> 1 \<and> \<bar>snd b - snd a\<bar> \<le> 1 \<and> connected8 (b # cs))"

definition bres_inv :: "int \<Rightarrow> int \<Rightarrow> int \<Rightarrow> int \<Rightarrow> bool" where
  "bres_inv dx dy rx ry =
     ((dx \<le> dy \<and> - dy < rx * dy - ry * dx \<and> rx * dy - ry * dx \<le> 0) \<or>
      (dy < dx \<and> - dx \<le> 2 * (rx * dy - ry * dx) \<and> 2 * (rx * dy - ry * dx) < dx))"

text \<open>
  One iteration of the loop on its variables \<open>(x1, y1, e1)\<close>, and the statement that it
  computes no value outside the range of \<open>int\<close>.
\<close>

definition next_state ::
  "int \<Rightarrow> int \<Rightarrow> int \<Rightarrow> int \<Rightarrow> int \<Rightarrow> int \<Rightarrow> int \<Rightarrow> (int \<times> int \<times> int) option"
where
  "next_state dx dy sx sy x1 y1 e1 =
     Option.bind (checked (e1 * 2)) (\<lambda>e2.
     Option.bind (checked (- dy)) (\<lambda>ndy.
     Option.bind (if e1 > ndy then checked (e1 - dy) else Some e1) (\<lambda>e1'.
     Option.bind (if e1 > ndy then checked (x1 + sx) else Some x1) (\<lambda>x1'.
     Option.bind (if e2 < dx then checked (e1' + dx) else Some e1') (\<lambda>e1''.
     Option.bind (if e2 < dx then checked (y1 + sy) else Some y1) (\<lambda>y1'.
       Some (x1', y1', e1'')))))))"

definition step_fits :: "int \<Rightarrow> int \<Rightarrow> int \<Rightarrow> int \<Rightarrow> int \<Rightarrow> int \<Rightarrow> int \<Rightarrow> bool" where
  "step_fits dx dy sx sy x1 y1 e1 =
     (int_ok (e1 * 2) \<and> int_ok (- dy) \<and>
      (e1 > - dy \<longrightarrow> int_ok (e1 - dy) \<and> int_ok (x1 + sx)) \<and>
      (e1 * 2 < dx \<longrightarrow>
         int_ok ((if e1 > - dy then e1 - dy else e1) + dx) \<and> int_ok (y1 + sy)))"

subsection \<open>The window and the two passes of \<open>render\<close>\<close>

text \<open>
  The first statement of \<open>render\<close>: the plot with the window that the pass uses. Then
  its first loop, over the lines of every style.
\<close>

definition window_of :: "Plot \<Rightarrow> Plot" where
  "window_of s =
     (if \<not> plot_range s
      then s\<lparr>plot_dx := dsub (maxX s) (minX s),
             plot_dy := dsub (maxY s) (minY s),
             topLeft := \<lparr>pt_x = minX s, pt_y = minY s\<rparr>\<rparr>
      else s)"

definition lines_pass :: "Plot \<Rightarrow> Plot option" where
  "lines_pass s =
     for_each (\<lambda>c. for_each (\<lambda>l. printLine l (co (fst c)) (ch (fst c))) (snd c))
       (lines s) (window_of s)"

text \<open>
  Its second loop, over the points of the styles \<open>ps\<close>, started on the plot \<open>t\<close>. A
  plot that differs from the plot with the window of \<open>s\<close> in its buffer only. The
  cell \<open>i\<close> of a plot. A point that the pass writes into the cell \<open>i\<close>: its mapped
  coordinates are defined, inside the grid, and index that cell.
\<close>

definition points_pass :: "(Cell \<times> Point list) list \<Rightarrow> Plot \<Rightarrow> Plot option" where
  "points_pass ps t =
     for_each (\<lambda>c. for_each (\<lambda>q. printPoint q (co (fst c)) (ch (fst c))) (snd c)) ps t"

definition same_window :: "Plot \<Rightarrow> Plot \<Rightarrow> bool" where
  "same_window s t = (t = (window_of s)\<lparr>printBuf := printBuf t\<rparr>)"

definition cell_at :: "nat \<Rightarrow> Plot \<Rightarrow> Cell option" where
  "cell_at i t = map_option (\<lambda>buf. buf ! i) (printBuf t)"

definition hits :: "Plot \<Rightarrow> nat \<Rightarrow> Point \<Rightarrow> bool" where
  "hits s i q =
     (case to_int (mapX (window_of s) q) of
        None \<Rightarrow> False
      | Some x \<Rightarrow>
          (case to_int (mapY (window_of s) q) of
             None \<Rightarrow> False
           | Some y \<Rightarrow> in_grid s x y \<and> cell_index s x y = i))"

text \<open>
  A cell that, if it shows the glyph \<open>g\<close>, has the colour \<open>k\<close> in its lower nibble.
\<close>

definition glyph_coloured :: "char \<Rightarrow> int8 \<Rightarrow> nat \<Rightarrow> Plot \<Rightarrow> bool" where
  "glyph_coloured g k j s =
     (case printBuf s of
        None \<Rightarrow> True
      | Some buf \<Rightarrow> ch (buf ! j) = g \<longrightarrow> lower_nibble (co (buf ! j)) = k)"

subsection \<open>The bounding box of the data\<close>

text \<open>
  The endpoints of all points and lines in the two maps, and the statement that
  \<open>minX .. maxY\<close> are their bounding box (the start values when there are none).
  \<open>tracked\<close> is the same statement about a set of points.
\<close>

fun is_fin :: "double \<Rightarrow> bool" where
  "is_fin (Fin q) = True"
| "is_fin PInf = False"
| "is_fin NInf = False"
| "is_fin NaN = False"

fun fin_val :: "double \<Rightarrow> rat" where
  "fin_val (Fin q) = q"
| "fin_val PInf = 0"
| "fin_val NInf = 0"
| "fin_val NaN = 0"

definition endpoints :: "Plot \<Rightarrow> Point list" where
  "endpoints s =
     concat (map snd (points s)) @
     concat (map (\<lambda>l. [ln_a l, ln_b l]) (concat (map snd (lines s))))"

definition xs_of :: "Plot \<Rightarrow> rat set" where
  "xs_of s = set (map (\<lambda>p. fin_val (pt_x p)) (endpoints s))"

definition ys_of :: "Plot \<Rightarrow> rat set" where
  "ys_of s = set (map (\<lambda>p. fin_val (pt_y p)) (endpoints s))"

definition tracks_bbox :: "Plot \<Rightarrow> bool" where
  "tracks_bbox s =
     (list_all (\<lambda>p. is_fin (pt_x p) \<and> is_fin (pt_y p)) (endpoints s) \<and>
      (if endpoints s = []
       then minX s = PInf \<and> maxX s = NInf \<and> minY s = PInf \<and> maxY s = NInf
       else minX s = Fin (Min (xs_of s)) \<and> maxX s = Fin (Max (xs_of s)) \<and>
            minY s = Fin (Min (ys_of s)) \<and> maxY s = Fin (Max (ys_of s))))"

definition tracked :: "Plot \<Rightarrow> Point set \<Rightarrow> bool" where
  "tracked s P =
     ((\<forall>p\<in>P. is_fin (pt_x p) \<and> is_fin (pt_y p)) \<and>
      (if P = {}
       then minX s = PInf \<and> maxX s = NInf \<and> minY s = PInf \<and> maxY s = NInf
       else minX s = Fin (Min ((\<lambda>p. fin_val (pt_x p)) ` P)) \<and>
            maxX s = Fin (Max ((\<lambda>p. fin_val (pt_x p)) ` P)) \<and>
            minY s = Fin (Min ((\<lambda>p. fin_val (pt_y p)) ` P)) \<and>
            maxY s = Fin (Max ((\<lambda>p. fin_val (pt_y p)) ` P))))"

subsection \<open>Sentinel writes as masks\<close>

text \<open>
  A write with the sentinel glyph acts on one cell as \<open>co := (co AND a) OR b\<close>, and
  turns \<open>EMPTY\<close> into \<open>BLOCK\<close>: a triple \<open>(a, b, mark)\<close>. \<open>pw\<close> applies one such triple
  per cell. An operation is a \<open>blockop\<close> when, wherever it returns, it acts on every
  buffer of the same shape as such a family of triples and changes nothing else.
\<close>

type_synonym xf = "int8 \<times> int8 \<times> bool"

definition xf_apply :: "xf \<Rightarrow> Cell \<Rightarrow> Cell" where
  "xf_apply p c =
     \<lparr>ch = (if snd (snd p) \<and> ch c = EMPTY then BLOCK else ch c),
      co = (co c AND fst p) OR fst (snd p)\<rparr>"

definition xf_id :: xf where
  "xf_id = (- 1, 0, False)"

definition xf_then :: "xf \<Rightarrow> xf \<Rightarrow> xf" where
  "xf_then p q =
     (fst p AND fst q, (fst (snd p) AND fst q) OR fst (snd q), snd (snd p) \<or> snd (snd q))"

definition pw :: "(nat \<Rightarrow> xf) \<Rightarrow> Cell list \<Rightarrow> Cell list" where
  "pw F buf = map (\<lambda>i. xf_apply (F i) (buf ! i)) [0..<length buf]"

definition blockop :: "(Plot \<Rightarrow> Plot option) \<Rightarrow> bool" where
  "blockop f =
     (\<forall>s s'. f s = Some s' \<longrightarrow>
        (\<exists>F. \<forall>pb. map_option length pb = map_option length (printBuf s) \<longrightarrow>
               f (s\<lparr>printBuf := pb\<rparr>) = Some (s\<lparr>printBuf := map_option (pw F) pb\<rparr>)))"

subsection \<open>Concrete plots\<close>

text \<open>
  A 4 by 2 grid on black with the explicit window \<open>(0,0)-(4,4)\<close>; the same with a
  \<open>BLOCK\<close> cell, and with no explicit window; a segment on its diagonal.
\<close>

definition demo_grid :: Plot where
  "demo_grid =
     \<lparr>plot_w = 4, plot_h = 2,
      printBuf = Some (replicate 8 \<lparr>ch = EMPTY, co = 0\<rparr>),
      background = BLACK, plot_range = True, invertedY = False,
      topLeft = \<lparr>pt_x = Fin 0, pt_y = Fin 0\<rparr>, plot_dx = Fin 4, plot_dy = Fin 4,
      minX = PInf, maxX = NInf, minY = PInf, maxY = NInf,
      points = [], lines = [], yFormat = [], xFormat = []\<rparr>"

definition demo_block :: Plot where
  "demo_block =
     demo_grid\<lparr>printBuf :=
       Some ((replicate 8 \<lparr>ch = EMPTY, co = 0\<rparr>)[1 := \<lparr>ch = BLOCK, co = 0x21\<rparr>])\<rparr>"

definition demo_auto :: Plot where
  "demo_auto = demo_grid\<lparr>plot_range := False\<rparr>"

definition demo_line :: Line where
  "demo_line = \<lparr>ln_a = \<lparr>pt_x = Fin 0, pt_y = Fin 0\<rparr>, ln_b = \<lparr>pt_x = Fin 3, pt_y = Fin 3\<rparr>\<rparr>"

text \<open>A segment from the origin of \<open>demo_grid\<close> to a point far to its right.\<close>

definition demo_far_line :: Line where
  "demo_far_line =
     \<lparr>ln_a = \<lparr>pt_x = Fin 0, pt_y = Fin 0\<rparr>, ln_b = \<lparr>pt_x = Fin 1100000000, pt_y = Fin 3\<rparr>\<rparr>"

text \<open>
  Plots built through the interface, with no explicit window: \<open>Plot(4, 2)\<close>, a red
  line from \<open>(0,0)\<close> to \<open>(4,4)\<close> and a blue point at \<open>(0,0)\<close>. The line is a block
  line and the point an \<open>'x'\<close>; both are blocks; both are \<open>'x'\<close>.
\<close>

definition demo_mixed :: "Plot option" where
  "demo_mixed =
     do {
       s \<leftarrow> Plot_sized \<lparr>pt_x = Fin 0, pt_y = Fin 0\<rparr> (Fin 0) (Fin 0) 4 2;
       s \<leftarrow> line (Fin 0) (Fin 0) (Fin 4) (Fin 4) RED (CHR 0x00) s;
       point (Fin 0) (Fin 0) BLUE (CHR ''x'') s
     }"

definition demo_blocks :: "Plot option" where
  "demo_blocks =
     do {
       s \<leftarrow> Plot_sized \<lparr>pt_x = Fin 0, pt_y = Fin 0\<rparr> (Fin 0) (Fin 0) 4 2;
       s \<leftarrow> line (Fin 0) (Fin 0) (Fin 4) (Fin 4) RED (CHR 0x00) s;
       point (Fin 0) (Fin 0) BLUE (CHR 0x00) s
     }"

definition demo_same_glyph :: "Plot option" where
  "demo_same_glyph =
     do {
       s \<leftarrow> Plot_sized \<lparr>pt_x = Fin 0, pt_y = Fin 0\<rparr> (Fin 0) (Fin 0) 4 2;
       s \<leftarrow> line (Fin 0) (Fin 0) (Fin 4) (Fin 4) RED (CHR ''x'') s;
       point (Fin 0) (Fin 0) BLUE (CHR ''x'') s
     }"

text \<open>
  Two markers over a line: the red block line from \<open>(0,0)\<close> to \<open>(4,4)\<close> and two blue
  points \<open>'x'\<close> on it, at \<open>(0,0)\<close> and \<open>(2,2)\<close>.
\<close>

definition demo_markers :: "Plot option" where
  "demo_markers =
     do {
       s \<leftarrow> Plot_sized \<lparr>pt_x = Fin 0, pt_y = Fin 0\<rparr> (Fin 0) (Fin 0) 4 2;
       s \<leftarrow> line (Fin 0) (Fin 0) (Fin 4) (Fin 4) RED (CHR 0x00) s;
       s \<leftarrow> point (Fin 0) (Fin 0) BLUE (CHR ''x'') s;
       point (Fin 2) (Fin 2) BLUE (CHR ''x'') s
     }"

section \<open>Properties\<close>

subsection \<open>Attribute arithmetic\<close>

lemma bit_0x0f_int: "bit (0x0f :: int) n \<longleftrightarrow> n < 4"
proof -
  have "bit (mask 4 :: int) n \<longleftrightarrow> n < 4"
    by (auto simp: bit_simps)
  moreover have "(mask 4 :: int) = 0x0f" by (simp add: mask_eq_exp_minus_1)
  ultimately show ?thesis by metis
qed

lemma bit_0xf0_int: "bit (0xf0 :: int) n \<longleftrightarrow> 4 \<le> n \<and> n < 8"
proof -
  have "bit (push_bit 4 (mask 4) :: int) n \<longleftrightarrow> 4 \<le> n \<and> n < 8"
    by (auto simp: bit_simps)
  moreover have "(push_bit 4 (mask 4) :: int) = 0xf0"
    by (simp add: mask_eq_exp_minus_1 push_bit_eq_mult)
  ultimately show ?thesis by metis
qed

lemma bit_promote: "bit (promote c) n \<longleftrightarrow> n < 32 \<and> bit c (min 7 n)"
  by (simp add: promote_def bit_simps)

lemma bit_narrow: "bit (narrow c) n \<longleftrightarrow> n < 8 \<and> bit c n"
  by (auto simp add: narrow_def bit_simps)

lemma narrow_promote [simp]: "narrow (promote c) = c"
  by (rule bit_word_eqI) (simp add: bit_narrow bit_promote)

lemma narrow_OR: "narrow (a OR b) = narrow a OR narrow b"
  by (rule bit_word_eqI) (auto simp: bit_narrow bit_simps)

lemma narrow_AND: "narrow (a AND b) = narrow a AND narrow b"
  by (rule bit_word_eqI) (auto simp: bit_narrow bit_simps)

lemma narrow_push_bit: "narrow (push_bit 4 a) = push_bit 4 (narrow a)"
  by (rule bit_word_eqI) (auto simp: bit_narrow bit_simps)

lemma narrow_numeral: "narrow 0x0f = 0x0f" "narrow 0xf0 = 0xf0"
  by (simp_all add: narrow_def)

lemma upper_write: "narrow ((promote c AND 0x0f) OR push_bit 4 (promote k)) = (c AND 0x0f) OR push_bit 4 k"
  by (simp add: narrow_OR narrow_AND narrow_push_bit narrow_numeral)

lemma lower_write: "narrow ((promote c AND 0xf0) OR promote k) = (c AND 0xf0) OR k"
  by (simp add: narrow_OR narrow_AND narrow_push_bit narrow_numeral)

lemma shift_write: "narrow (push_bit 4 (promote c) OR promote k) = push_bit 4 c OR k"
  by (simp add: narrow_OR narrow_AND narrow_push_bit narrow_numeral)

lemma promote_inj: "(promote a = promote b) = (a = b)"
  by (metis narrow_promote)

lemma lower_differs: "((promote c AND 0x0f) \<noteq> promote bg) = ((c AND 0x0f) \<noteq> bg)"
proof -
  have "(promote c AND 0x0f) = promote (c AND 0x0f)"
    by (rule bit_word_eqI) (auto simp: bit_promote bit_simps bit_0x0f_int)
  then show ?thesis by (simp add: promote_inj)
qed

lemma color_nibble: "k < 16 \<Longrightarrow> bit (k::int8) n \<Longrightarrow> n < 4"
proof -
  assume "k < 16" "bit k n"
  then have "k AND mask 4 = k" 
    by (intro less_mask_eq) simp
  then have "bit (k AND mask 4) n" using \<open>bit k n\<close> by simp
  then show ?thesis by (simp add: bit_simps)
qed

lemma nib1: "k < 16 \<Longrightarrow> ((c AND 0xf0) OR k) AND 0x0f = (k::int8)"
  by (rule bit_word_eqI) (auto simp: bit_simps bit_0x0f_int bit_0xf0_int dest: color_nibble)
lemma nib3: "((c AND 0x0f) OR push_bit 4 k) AND 0x0f = (c AND (0x0f::int8))"
  by (rule bit_word_eqI) (auto simp: bit_simps bit_0x0f_int bit_0xf0_int dest: color_nibble)
lemma nib4: "k < 16 \<Longrightarrow> drop_bit 4 ((c AND 0x0f) OR push_bit 4 k) = (k::int8)"
  by (rule bit_word_eqI) (auto simp: bit_simps bit_0x0f_int bit_0xf0_int dest: color_nibble)
lemma nib5: "k < 16 \<Longrightarrow> drop_bit 4 (push_bit 4 c OR k) = (c AND (0x0f::int8))"
  by (rule bit_word_eqI) (auto simp: bit_simps bit_0x0f_int bit_0xf0_int dest: color_nibble)
lemma nib6: "k < 16 \<Longrightarrow> (push_bit 4 c OR k) AND 0x0f = (k::int8)"
  by (rule bit_word_eqI) (auto simp: bit_simps bit_0x0f_int bit_0xf0_int dest: color_nibble)
lemma nib7: "k < 16 \<Longrightarrow> drop_bit 4 ((c AND 0xf0) OR k) = drop_bit 4 (c::int8)"
  by (rule bit_word_eqI) (auto simp: bit_simps bit_0x0f_int bit_0xf0_int dest: color_nibble bit_imp_le_length)

lemma cell_index_less:
  assumes "in_grid s x y"
  shows "cell_index s x y < nat (plot_w s * plot_h s)"
proof -
  from assms have x: "0 \<le> x" "x < plot_w s" and y: "0 \<le> y" "y < plot_h s * 2"
    by (simp_all add: in_grid_def)
  from y have d: "0 \<le> y div 2" "y div 2 \<le> plot_h s - 1" by simp_all
  from x have w: "0 \<le> plot_w s" by simp
  have "(y div 2) * plot_w s \<le> (plot_h s - 1) * plot_w s"
    using d(2) w by (rule mult_right_mono)
  then have "x + (y div 2) * plot_w s < plot_w s * plot_h s"
    using x(2) by (simp add: algebra_simps)
  moreover have "0 \<le> x + (y div 2) * plot_w s"
    using x(1) d(1) w by simp
  ultimately show ?thesis by (simp add: cell_index_def)
qed

lemma setCell_outside: "\<not> in_grid s x y \<Longrightarrow> setCell x y color character s = Some s"
  by (auto simp: setCell_def in_grid_def)

lemma setCell_inside:
  assumes "in_grid s x y" "printBuf s = Some buf" "length buf = nat (plot_w s * plot_h s)"
  shows "setCell x y color character s =
           Some (s\<lparr>printBuf := Some (buf[cell_index s x y :=
                   (if character = CHR 0x00
                    then setCell_block (invertedY s) y color (buf ! cell_index s x y)
                    else setCell_char (background s) color character (buf ! cell_index s x y))])\<rparr>)"
  using assms cell_index_less[OF assms(1)]
  by (auto simp: setCell_def in_grid_def cell_index_def Let_def)

lemma setCell_block_eq:
  "setCell_block inverted y color c =
     \<lparr>ch = (if ch c = EMPTY then BLOCK else ch c),
      co = (if (if inverted then y + 1 else y) mod 2 \<noteq> 0
            then (co c AND 0x0f) OR push_bit 4 color
            else (co c AND 0xf0) OR color)\<rparr>"
  by (simp add: setCell_block_def Let_def upper_write lower_write)

lemma setCell_char_eq:
  "setCell_char bg color character c =
     \<lparr>ch = character,
      co = (if ch c = EMPTY then (co c AND 0xf0) OR color
            else if ch c = BLOCK then
              (if (co c AND 0x0f) \<noteq> bg then push_bit 4 (co c) OR color
               else (co c AND 0xf0) OR color)
            else if ch c \<noteq> character then push_bit 4 (co c) OR color
            else co c)\<rparr>"
  by (simp add: setCell_char_def Let_def shift_write lower_write lower_differs)

lemma mapX_points [simp]: "mapX (s\<lparr>points := v\<rparr>) p = mapX s p"
  by (simp add: mapX_def)
lemma mapY_points [simp]: "mapY (s\<lparr>points := v\<rparr>) p = mapY s p"
  by (simp add: mapY_def)

lemma lower_of_lower_write: "k < 16 \<Longrightarrow> lower_nibble ((c AND 0xf0) OR k) = k"
  by (simp add: lower_nibble_def nib1)
lemma upper_of_lower_write: "k < 16 \<Longrightarrow> upper_nibble ((c AND 0xf0) OR k) = upper_nibble c"
  by (simp only: upper_nibble_def nib7)
lemma lower_of_upper_write: "lower_nibble ((c AND 0x0f) OR push_bit 4 k) = lower_nibble c"
  by (simp only: lower_nibble_def nib3)
lemma upper_of_upper_write: "k < 16 \<Longrightarrow> upper_nibble ((c AND 0x0f) OR push_bit 4 k) = k"
  by (simp only: upper_nibble_def nib4)
lemma lower_of_shift_write: "k < 16 \<Longrightarrow> lower_nibble (push_bit 4 c OR k) = k"
  by (simp only: lower_nibble_def nib6)
lemma upper_of_shift_write: "k < 16 \<Longrightarrow> upper_nibble (push_bit 4 c OR k) = lower_nibble c"
  by (simp only: upper_nibble_def lower_nibble_def nib5)

lemmas nibble_writes = lower_of_lower_write upper_of_lower_write lower_of_upper_write
  upper_of_upper_write lower_of_shift_write upper_of_shift_write

lemmas demo_eval = demo_grid_def mapX_def mapY_def of_int_d_def trunc_def INT_MIN_def INT_MAX_def
  in_grid_def cell_index_def EMPTY_def BLOCK_def RED_def BLACK_def

subsection \<open>Writes of \<open>setCell\<close>\<close>

text \<open>
  Claim C8. A cell write with \<open>col\<close> outside \<open>[0, w)\<close> or \<open>subrow\<close> outside
  \<open>[0, 2*h)\<close> returns the plot as it was: no cell changes and nothing is signalled,
  whether or not a buffer is allocated. In particular a point whose mapped column is
  \<open>-1\<close> or \<open>w\<close> (and whose mapped row is defined) leaves the plot unchanged.
\<close>

theorem setCell_clips:
  "(x < 0 \<or> x \<ge> plot_w s \<or> y < 0 \<or> y \<ge> plot_h s * 2
      \<longrightarrow> setCell x y color character s = Some s) \<and>
   ((to_int (mapX s p) = Some (- 1) \<or> to_int (mapX s p) = Some (plot_w s)) \<and>
     to_int (mapY s p) = Some y'
      \<longrightarrow> printPoint p color character s = Some s)"
  by (auto simp: printPoint_def setCell_def)

theorem setCell_clips_witness:
  "setCell (- 1) 0 WHITE (CHR 0x00) demo_grid = Some demo_grid \<and>
   printPoint \<lparr>pt_x = Fin 4, pt_y = Fin 1\<rparr> WHITE (CHR ''x'') demo_grid = Some demo_grid"
  using setCell_clips [where x = "- 1" and y = 0 and s = demo_grid and color = WHITE
      and character = "CHR 0x00" and p = "\<lparr>pt_x = Fin 4, pt_y = Fin 1\<rparr>" and y' = 1]
    setCell_clips [where x = "- 1" and y = 0 and s = demo_grid and color = WHITE
      and character = "CHR ''x''" and p = "\<lparr>pt_x = Fin 4, pt_y = Fin 1\<rparr>" and y' = 1]
  by (simp add: demo_grid_def mapX_def mapY_def of_int_d_def trunc_def INT_MIN_def INT_MAX_def)

text \<open>
  Claim C5. With an explicit window active, a point of colour \<open>color\<close> (a palette
  index, below 16) and the sentinel glyph \<open>'\0'\<close> whose mapped cell lies in the grid is
  written at once, and only that cell changes: an \<open>EMPTY\<close> cell becomes \<open>BLOCK\<close> and
  any other glyph (so also \<open>BLOCK\<close>) stays; the nibble selected by the parity of the
  sub-row, taken after the increment that \<open>invertedY\<close> adds, becomes \<open>color\<close> (upper
  nibble when odd, lower when even) and the other nibble keeps its value.
\<close>

theorem block_point_sets_one_nibble:
  assumes "plot_range s" and "printBuf s = Some buf"
    and "length buf = nat (plot_w s * plot_h s)"
    and "to_int (mapX s \<lparr>pt_x = px, pt_y = py\<rparr>) = Some x"
    and "to_int (mapY s \<lparr>pt_x = px, pt_y = py\<rparr>) = Some y"
    and "in_grid s x y" and "color < 16"
  shows "\<exists>s' buf'. point px py color (CHR 0x00) s = Some s' \<and> printBuf s' = Some buf' \<and>
           buf' = buf[cell_index s x y := buf' ! cell_index s x y] \<and>
           ch (buf' ! cell_index s x y) =
             (if ch (buf ! cell_index s x y) = EMPTY then BLOCK else ch (buf ! cell_index s x y)) \<and>
           (if (if invertedY s then y + 1 else y) mod 2 \<noteq> 0
            then upper_nibble (co (buf' ! cell_index s x y)) = color \<and>
                 lower_nibble (co (buf' ! cell_index s x y)) = lower_nibble (co (buf ! cell_index s x y))
            else lower_nibble (co (buf' ! cell_index s x y)) = color \<and>
                 upper_nibble (co (buf' ! cell_index s x y)) = upper_nibble (co (buf ! cell_index s x y)))"
proof -
  let ?s1 = "s\<lparr>points := push_back_at \<lparr>ch = CHR 0x00, co = color\<rparr> \<lparr>pt_x = px, pt_y = py\<rparr> (points s)\<rparr>"
  let ?i = "cell_index s x y"
  let ?new = "setCell_block (invertedY s) y color (buf ! ?i)"
  have g: "in_grid ?s1 x y" using assms(6) by (simp add: in_grid_def)
  have i: "?i < length buf" using cell_index_less[OF assms(6)] assms(3) by simp
  have "setCell x y color (CHR 0x00) ?s1 = Some (?s1\<lparr>printBuf := Some (buf[?i := ?new])\<rparr>)"
    using setCell_inside[OF g, of buf color "CHR 0x00"] assms(2,3)
    by (simp add: cell_index_def)
  then have p: "point px py color (CHR 0x00) s = Some (?s1\<lparr>printBuf := Some (buf[?i := ?new])\<rparr>)"
    using assms(1,4,5) by (simp add: point_def printPoint_def Let_def)
  show ?thesis
    unfolding p using i assms(7)
    by (simp add: setCell_block_eq nibble_writes)
qed

theorem block_point_sets_one_nibble_witness:
  "\<exists>s' buf'. point (Fin 1) (Fin 1) RED (CHR 0x00) demo_grid = Some s' \<and>
      printBuf s' = Some buf' \<and> ch (buf' ! 1) = BLOCK \<and>
      upper_nibble (co (buf' ! 1)) = RED \<and> lower_nibble (co (buf' ! 1)) = lower_nibble 0"
proof -
  have "\<exists>s' buf'. point (Fin 1) (Fin 1) RED (CHR 0x00) demo_grid = Some s' \<and>
      printBuf s' = Some buf' \<and>
      buf' = (replicate 8 \<lparr>ch = EMPTY, co = 0\<rparr>)[cell_index demo_grid 1 1 :=
               buf' ! cell_index demo_grid 1 1] \<and>
      ch (buf' ! cell_index demo_grid 1 1) =
        (if ch (replicate 8 \<lparr>ch = EMPTY, co = 0\<rparr> ! cell_index demo_grid 1 1) = EMPTY then BLOCK
         else ch (replicate 8 \<lparr>ch = EMPTY, co = 0\<rparr> ! cell_index demo_grid 1 1)) \<and>
      (if (if invertedY demo_grid then 1 + 1 else 1) mod 2 \<noteq> (0::int)
       then upper_nibble (co (buf' ! cell_index demo_grid 1 1)) = RED \<and>
            lower_nibble (co (buf' ! cell_index demo_grid 1 1)) =
              lower_nibble (co (replicate 8 \<lparr>ch = EMPTY, co = 0\<rparr> ! cell_index demo_grid 1 1))
       else lower_nibble (co (buf' ! cell_index demo_grid 1 1)) = RED \<and>
            upper_nibble (co (buf' ! cell_index demo_grid 1 1)) =
              upper_nibble (co (replicate 8 \<lparr>ch = EMPTY, co = 0\<rparr> ! cell_index demo_grid 1 1)))"
    by (rule block_point_sets_one_nibble) (simp_all add: demo_eval)
  then show ?thesis
    by (simp add: demo_eval) blast
qed

text \<open>
  Claim C6. \<open>setCell\<close> with an explicit character, inside the grid, with a palette
  colour: the glyph of the cell afterwards is the new character in every case; and on a
  cell that holds \<open>BLOCK\<close>, if its lower nibble differs from the background the
  attribute is shifted left by one nibble (the old lower colour becomes the upper one)
  and the new colour becomes the lower nibble, otherwise only the lower nibble is set.
\<close>

theorem glyph_on_block_cell:
  assumes "character \<noteq> CHR 0x00" and "in_grid s x y" and "printBuf s = Some buf"
    and "length buf = nat (plot_w s * plot_h s)" and "color < 16"
  shows "\<exists>new. setCell x y color character s =
             Some (s\<lparr>printBuf := Some (buf[cell_index s x y := new])\<rparr>) \<and>
           ch new = character \<and>
           (ch (buf ! cell_index s x y) = BLOCK \<longrightarrow>
             (if lower_nibble (co (buf ! cell_index s x y)) \<noteq> background s
              then co new = push_bit 4 (co (buf ! cell_index s x y)) OR color \<and>
                   upper_nibble (co new) = lower_nibble (co (buf ! cell_index s x y)) \<and>
                   lower_nibble (co new) = color
              else lower_nibble (co new) = color \<and>
                   upper_nibble (co new) = upper_nibble (co (buf ! cell_index s x y))))"
proof -
  let ?new = "setCell_char (background s) color character (buf ! cell_index s x y)"
  have e: "EMPTY \<noteq> BLOCK" by (simp add: EMPTY_def BLOCK_def)
  have "setCell x y color character s =
          Some (s\<lparr>printBuf := Some (buf[cell_index s x y := ?new])\<rparr>)"
    using assms(1) setCell_inside[OF assms(2,3,4), of color character] by simp
  moreover have "ch ?new = character"
    by (simp add: setCell_char_eq)
  moreover have "ch (buf ! cell_index s x y) = BLOCK \<longrightarrow>
             (if lower_nibble (co (buf ! cell_index s x y)) \<noteq> background s
              then co ?new = push_bit 4 (co (buf ! cell_index s x y)) OR color \<and>
                   upper_nibble (co ?new) = lower_nibble (co (buf ! cell_index s x y)) \<and>
                   lower_nibble (co ?new) = color
              else lower_nibble (co ?new) = color \<and>
                   upper_nibble (co ?new) = upper_nibble (co (buf ! cell_index s x y)))"
    using e assms(5) by (simp add: setCell_char_eq nibble_writes) (simp add: lower_nibble_def)
  ultimately show ?thesis by blast
qed

theorem glyph_on_block_cell_witness:
  "\<exists>new. setCell 1 0 BLUE (CHR ''x'') demo_block =
      Some (demo_block\<lparr>printBuf := Some ((replicate 8 \<lparr>ch = EMPTY, co = 0\<rparr>)[1 := \<lparr>ch = BLOCK, co = 0x21\<rparr>, 1 := new])\<rparr>) \<and>
      ch new = CHR ''x'' \<and> upper_nibble (co new) = 1 \<and> lower_nibble (co new) = BLUE"
proof -
  have "cell_index demo_block 1 0 = 1" 
    by (simp add: demo_eval demo_block_def)
  with glyph_on_block_cell [where s = demo_block
      and buf = "(replicate 8 \<lparr>ch = EMPTY, co = 0\<rparr>)[1 := \<lparr>ch = BLOCK, co = 0x21\<rparr>]"
      and x = 1 and y = 0 and color = BLUE and character = "CHR ''x''"]
  show ?thesis
    by (simp add: demo_eval demo_block_def BLUE_def lower_nibble_def) blast
qed

text \<open>
  Claim C10. \<open>setBackgroundColor\<close> changes the member \<open>background\<close> and nothing
  else: the cells and both data maps are as before. A later \<open>setCell\<close> with the
  sentinel glyph does not read it either.
\<close>

theorem setBackgroundColor_frame:
  "printBuf (setBackgroundColor c s) = printBuf s \<and>
   points (setBackgroundColor c s) = points s \<and>
   lines (setBackgroundColor c s) = lines s \<and>
   background (setBackgroundColor c s) = c \<and>
   setBackgroundColor c s = s\<lparr>background := c\<rparr> \<and>
   setCell x y color (CHR 0x00) (setBackgroundColor c s) =
     map_option (setBackgroundColor c) (setCell x y color (CHR 0x00) s)"
  by (auto simp: setBackgroundColor_def setCell_def Let_def split: option.splits)

subsection \<open>The walk of \<open>printLine\<close>\<close>

lemma connected8_Cons:
  "cs \<noteq> [] \<Longrightarrow> connected8 (a # cs) =
     (\<bar>fst (hd cs) - fst a\<bar> \<le> 1 \<and> \<bar>snd (hd cs) - snd a\<bar> \<le> 1 \<and> connected8 cs)"
  by (cases cs) simp_all

lemma bres_step:
  fixes rx ry dx dy e1 :: int
  assumes r: "0 \<le> rx" "0 \<le> ry" and d: "0 \<le> dx" "0 \<le> dy"
    and e: "e1 = dx - dy + rx * dy - ry * dx"
    and inv: "bres_inv dx dy rx ry"
    and nz: "rx \<noteq> 0 \<or> ry \<noteq> 0"
  defines "rx' \<equiv> (if e1 > - dy then rx - 1 else rx)"
    and "ry' \<equiv> (if e1 * 2 < dx then ry - 1 else ry)"
  shows "0 \<le> rx' \<and> 0 \<le> ry' \<and> rx' + ry' < rx + ry \<and> bres_inv dx dy rx' ry' \<and>
         (if e1 * 2 < dx then (if e1 > - dy then e1 - dy else e1) + dx
          else (if e1 > - dy then e1 - dy else e1)) = dx - dy + rx' * dy - ry' * dx"
proof -
  define A where "A = rx * dy"
  define B where "B = ry * dx"
  have A0: "0 \<le> A" and B0: "0 \<le> B" using r d by (simp_all add: A_def B_def)
  have Az: "rx = 0 \<Longrightarrow> A = 0" and Bz: "ry = 0 \<Longrightarrow> B = 0" by (simp_all add: A_def B_def)
  have A1: "A \<ge> dy" if "rx \<noteq> 0"
  proof -
    from that r have "1 \<le> rx" by simp
    then have "1 * dy \<le> rx * dy" using d(2) by (rule mult_right_mono)
    then show ?thesis by (simp add: A_def)
  qed
  have B1: "B \<ge> dx" if "ry \<noteq> 0"
  proof -
    from that r have "1 \<le> ry" by simp
    then have "1 * dx \<le> ry * dx" using d(1) by (rule mult_right_mono)
    then show ?thesis by (simp add: B_def)
  qed
  have Am: "(rx - 1) * dy = A - dy" and Bm: "(ry - 1) * dx = B - dx"
    by (simp_all add: A_def B_def algebra_simps)
  have e': "e1 = dx - dy + A - B" using e by (simp add: A_def B_def)
  from inv have inv': "(dx \<le> dy \<and> - dy < A - B \<and> A - B \<le> 0) \<or>
      (dy < dx \<and> - dx \<le> 2 * (A - B) \<and> 2 * (A - B) < dx)"
    by (simp add: bres_inv_def A_def B_def)
  let ?e = "(if e1 * 2 < dx then (if e1 > - dy then e1 - dy else e1) + dx
          else (if e1 > - dy then e1 - dy else e1))"
  from inv' show ?thesis
  proof
    assume "dx \<le> dy \<and> - dy < A - B \<and> A - B \<le> 0"
    then have ym: "dx \<le> dy" "- dy < A - B" "A - B \<le> 0" by simp_all
    then have dy: "0 < dy" by arith
    have ry1: "ry \<noteq> 0"
    proof
      assume z: "ry = 0"
      then have "B = 0" by (rule Bz)
      with ym A0 have "A = 0" by arith
      with dy have "rx = 0" by (simp add: A_def)
      with z nz show False by simp
    qed
    have ystep: "e1 * 2 < dx" using ym e' d dy by arith
    show ?thesis
    proof (cases "e1 > - dy")
      case True
      have rx1: "rx \<noteq> 0"
      proof
        assume "rx = 0"
        then have "A = 0" by (rule Az)
        with True e' B1[OF ry1] show False by arith
      qed
      have v: "rx' = rx - 1" "ry' = ry - 1" "?e = e1 - dy + dx"
        using True ystep by (simp_all add: rx'_def ry'_def)
      have p: "rx' * dy = A - dy" "ry' * dx = B - dx" by (simp_all add: v Am Bm)
      have "0 \<le> rx - 1" "0 \<le> ry - 1" using rx1 ry1 r by simp_all
      moreover have "dx \<le> dy \<and> - dy < (A - dy) - (B - dx) \<and> (A - dy) - (B - dx) \<le> 0"
        using ym True e' by arith
      moreover have "e1 - dy + dx = dx - dy + (A - dy) - (B - dx)" using e' by arith
      ultimately show ?thesis unfolding bres_inv_def p unfolding v by simp
    next
      case False
      have v: "rx' = rx" "ry' = ry - 1" "?e = e1 + dx"
        using False ystep by (simp_all add: rx'_def ry'_def)
      have p: "rx' * dy = A" "ry' * dx = B - dx" by (simp_all add: v Bm A_def)
      have "0 \<le> ry - 1" using ry1 r by simp
      moreover have "dx \<le> dy \<and> - dy < A - (B - dx) \<and> A - (B - dx) \<le> 0"
        using ym False e' d by arith
      moreover have "e1 + dx = dx - dy + A - (B - dx)" using e' by arith
      ultimately show ?thesis unfolding bres_inv_def p unfolding v using r by simp
    qed
  next
    assume "dy < dx \<and> - dx \<le> 2 * (A - B) \<and> 2 * (A - B) < dx"
    then have xm: "dy < dx" "- dx \<le> 2 * (A - B)" "2 * (A - B) < dx" by simp_all
    have rx1: "rx \<noteq> 0"
    proof
      assume z: "rx = 0"
      then have a: "A = 0" by (rule Az)
      have "ry = 0"
      proof (rule ccontr)
        assume "ry \<noteq> 0"
        from B1[OF this] a xm d show False by arith
      qed
      with z nz show False by simp
    qed
    have xstep: "e1 > - dy" using xm e' d by arith
    show ?thesis
    proof (cases "e1 * 2 < dx")
      case True
      have ry1: "ry \<noteq> 0"
      proof
        assume "ry = 0"
        then have "B = 0" by (rule Bz)
        with True e' A1[OF rx1] xm show False by arith
      qed
      have v: "rx' = rx - 1" "ry' = ry - 1" "?e = e1 - dy + dx"
        using True xstep by (simp_all add: rx'_def ry'_def)
      have p: "rx' * dy = A - dy" "ry' * dx = B - dx" by (simp_all add: v Am Bm)
      have "0 \<le> rx - 1" "0 \<le> ry - 1" using rx1 ry1 r by simp_all
      moreover have "dy < dx \<and> - dx \<le> 2 * ((A - dy) - (B - dx)) \<and> 2 * ((A - dy) - (B - dx)) < dx"
        using xm True e' by arith
      moreover have "e1 - dy + dx = dx - dy + (A - dy) - (B - dx)" using e' by arith
      ultimately show ?thesis unfolding bres_inv_def p unfolding v by simp
    next
      case False
      have v: "rx' = rx - 1" "ry' = ry" "?e = e1 - dy"
        using False xstep by (simp_all add: rx'_def ry'_def)
      have p: "rx' * dy = A - dy" "ry' * dx = B" by (simp_all add: v Am B_def)
      have "0 \<le> rx - 1" using rx1 r by simp
      moreover have "dy < dx \<and> - dx \<le> 2 * ((A - dy) - B) \<and> 2 * ((A - dy) - B) < dx"
        using xm False e' d by arith
      moreover have "e1 - dy = dx - dy + (A - dy) - B" using e' by arith
      ultimately show ?thesis unfolding bres_inv_def p unfolding v using r by simp
    qed
  qed
qed

subsection \<open>One iteration\<close>

lemma body_next_state:
  "Option.bind (checked (e1 * 2)) (\<lambda>e2.
   Option.bind (checked (- dy)) (\<lambda>ndy.
   Option.bind (if e1 > ndy then checked (e1 - dy) else Some e1) (\<lambda>e1'.
   Option.bind (if e1 > ndy then checked (x1 + sx) else Some x1) (\<lambda>x1'.
   Option.bind (if e2 < dx then checked (e1' + dx) else Some e1') (\<lambda>e1''.
   Option.bind (if e2 < dx then checked (y1 + sy) else Some y1) (\<lambda>y1'.
     F x1' y1' e1'')))))) =
   Option.bind (next_state dx dy sx sy x1 y1 e1)
     (\<lambda>st. F (fst st) (fst (snd st)) (snd (snd st)))"
  by (simp only: next_state_def Option.bind_assoc Option.bind.simps fst_conv snd_conv)

lemma printLine_loop_unfold:
  "printLine_loop x2 y2 dx dy sx sy color character x1 y1 e1 s =
     Option.bind (setCell x1 y1 color character s) (\<lambda>s'.
       if x1 = x2 \<and> y1 = y2 then Some s'
       else Option.bind (next_state dx dy sx sy x1 y1 e1)
              (\<lambda>st. printLine_loop x2 y2 dx dy sx sy color character
                      (fst st) (fst (snd st)) (snd (snd st)) s'))"
  by (subst printLine_loop.simps) (simp only: body_next_state)

lemma printLine_cells_unfold:
  "printLine_cells x2 y2 dx dy sx sy x1 y1 e1 =
     (if x1 = x2 \<and> y1 = y2 then Some [(x1, y1)]
      else Option.bind (next_state dx dy sx sy x1 y1 e1)
             (\<lambda>st. Option.bind
                (printLine_cells x2 y2 dx dy sx sy (fst st) (fst (snd st)) (snd (snd st)))
                (\<lambda>cells. Some ((x1, y1) # cells))))"
  by (subst printLine_cells.simps) (simp only: body_next_state)

lemma next_state_fits:
  assumes "step_fits dx dy sx sy x1 y1 e1"
  shows "next_state dx dy sx sy x1 y1 e1 =
           Some (if e1 > - dy then x1 + sx else x1,
                 if e1 * 2 < dx then y1 + sy else y1,
                 if e1 * 2 < dx then (if e1 > - dy then e1 - dy else e1) + dx
                 else (if e1 > - dy then e1 - dy else e1))"
proof (cases "e1 > - dy")
  case True
  show ?thesis
  proof (cases "e1 * 2 < dx")
    case True
    with \<open>e1 > - dy\<close> assms show ?thesis
      by (simp add: next_state_def step_fits_def checked_def)
  next
    case False
    with \<open>e1 > - dy\<close> assms show ?thesis
      by (simp add: next_state_def step_fits_def checked_def)
  qed
next
  case False
  show ?thesis
  proof (cases "e1 * 2 < dx")
    case True
    with \<open>\<not> e1 > - dy\<close> assms show ?thesis
      by (simp add: next_state_def step_fits_def checked_def)
  next
    case False
    with \<open>\<not> e1 > - dy\<close> assms show ?thesis
      by (simp add: next_state_def step_fits_def checked_def)
  qed
qed

lemma between_ok:
  fixes r :: int
  assumes "sx = 1 \<or> sx = - 1" "int_ok x2" "int_ok (x2 - sx * d)" "0 \<le> r" "r \<le> d"
  shows "int_ok (x2 - sx * r)"
  using assms by (auto simp: int_ok_def)

lemma to_int_ok: "to_int d = Some v \<Longrightarrow> int_ok v"
  by (cases d) (auto simp: int_ok_def split: if_splits)

text \<open>
  The walk from a cell \<open>rx\<close> columns and \<open>ry\<close> sub-rows away from the target, with the
  error term the code has there, reaches the target without leaving the range of
  \<open>int\<close>, provided the two distances are below \<open>2^29\<close>: the error term stays within
  \<open>2 * max dx dy\<close> of zero and the code doubles it.
\<close>

lemma printLine_cells_terminates:
  fixes rx ry dx dy sx sy x2 y2 e1 :: int
  assumes s: "sx = 1 \<or> sx = - 1" "sy = 1 \<or> sy = - 1"
    and d: "0 \<le> dx" "0 \<le> dy" "dx < 2 ^ 29" "dy < 2 ^ 29"
    and ok: "int_ok x2" "int_ok y2" "int_ok (x2 - sx * dx)" "int_ok (y2 - sy * dy)"
    and r: "0 \<le> rx" "0 \<le> ry" "rx \<le> dx" "ry \<le> dy"
    and e: "e1 = dx - dy + rx * dy - ry * dx"
    and inv: "bres_inv dx dy rx ry"
  shows "\<exists>cs. printLine_cells x2 y2 dx dy sx sy (x2 - sx * rx) (y2 - sy * ry) e1 = Some cs \<and>
           cs \<noteq> [] \<and> hd cs = (x2 - sx * rx, y2 - sy * ry) \<and> last cs = (x2, y2) \<and>
           connected8 cs \<and> length cs \<le> nat (rx + ry) + 1"
  using r e inv
proof (induction "nat (rx + ry)" arbitrary: rx ry e1 rule: less_induct)
  case less
  show ?case
  proof (cases "rx = 0 \<and> ry = 0")
    case True
    then show ?thesis by (subst printLine_cells_unfold) simp
  next
    case False
    define rx' where "rx' = (if e1 > - dy then rx - 1 else rx)"
    define ry' where "ry' = (if e1 * 2 < dx then ry - 1 else ry)"
    define e1' where "e1' = (if e1 * 2 < dx then (if e1 > - dy then e1 - dy else e1) + dx
          else (if e1 > - dy then e1 - dy else e1))"
    from False have nz: "rx \<noteq> 0 \<or> ry \<noteq> 0" by simp
    from bres_step[OF less.prems(1,2) d(1,2) less.prems(5,6) nz]
    have st: "0 \<le> rx'" "0 \<le> ry'" "rx' + ry' < rx + ry" "bres_inv dx dy rx' ry'"
      "e1' = dx - dy + rx' * dy - ry' * dx"
      by (simp_all add: rx'_def ry'_def e1'_def)
    have le: "rx' \<le> dx" "ry' \<le> dy"
      using less.prems(3,4) by (simp_all add: rx'_def ry'_def)
    have m: "nat (rx' + ry') < nat (rx + ry)" using st(1,2,3) by simp
    from less.hyps[OF m st(1,2) le st(5,4)] obtain cs where
      cs: "printLine_cells x2 y2 dx dy sx sy (x2 - sx * rx') (y2 - sy * ry') e1' = Some cs"
        "cs \<noteq> []" "hd cs = (x2 - sx * rx', y2 - sy * ry')" "last cs = (x2, y2)" "connected8 cs"
        "length cs \<le> nat (rx' + ry') + 1"
      by blast
    have ne: "\<not> (x2 - sx * rx = x2 \<and> y2 - sy * ry = y2)" using nz s by auto
    have nx: "(if e1 > - dy then x2 - sx * rx + sx else x2 - sx * rx) = x2 - sx * rx'"
      by (simp add: rx'_def algebra_simps)
    have ny: "(if e1 * 2 < dx then y2 - sy * ry + sy else y2 - sy * ry) = y2 - sy * ry'"
      by (simp add: ry'_def algebra_simps)
    define D where "D = rx * dy - ry * dx"
    have eD: "e1 = dx - dy + D" using less.prems(5) by (simp add: D_def)
    have band: "(dx \<le> dy \<and> - dy < D \<and> D \<le> 0) \<or> (dy < dx \<and> - dx \<le> 2 * D \<and> 2 * D < dx)"
      using less.prems(6) by (simp add: bres_inv_def D_def)
    have e_lo: "- (2 ^ 30) < e1" and e_hi: "e1 < 2 ^ 30"
      using band eD d by auto
    have x': "int_ok (x2 - sx * rx')" by (rule between_ok[OF s(1) ok(1,3) st(1) le(1)])
    have y': "int_ok (y2 - sy * ry')" by (rule between_ok[OF s(2) ok(2,4) st(2) le(2)])
    have fits: "step_fits dx dy sx sy (x2 - sx * rx) (y2 - sy * ry) e1"
      unfolding step_fits_def
    proof (intro conjI impI)
      show "int_ok (e1 * 2)" using e_lo e_hi by (simp add: int_ok_def INT_MIN_def INT_MAX_def)
      show "int_ok (- dy)" using d by (simp add: int_ok_def INT_MIN_def INT_MAX_def)
      show "int_ok (e1 - dy)" using e_lo e_hi d by (simp add: int_ok_def INT_MIN_def INT_MAX_def)
      show "int_ok (x2 - sx * rx + sx)" if "- dy < e1"
        using x' that by (simp add: rx'_def algebra_simps)
      show "int_ok ((if - dy < e1 then e1 - dy else e1) + dx)"
        using e_lo e_hi d by (simp add: int_ok_def INT_MIN_def INT_MAX_def)
      show "int_ok (y2 - sy * ry + sy)" if "e1 * 2 < dx"
        using y' that by (simp add: ry'_def algebra_simps)
    qed
    have ns: "next_state dx dy sx sy (x2 - sx * rx) (y2 - sy * ry) e1 =
                Some (x2 - sx * rx', y2 - sy * ry', e1')"
      by (simp only: next_state_fits[OF fits] nx ny e1'_def[symmetric])
    have u: "printLine_cells x2 y2 dx dy sx sy (x2 - sx * rx) (y2 - sy * ry) e1 =
               Some ((x2 - sx * rx, y2 - sy * ry) # cs)"
      by (subst printLine_cells_unfold)
         (simp only: ne if_False ns Option.bind.simps fst_conv snd_conv cs(1))
    have cx: "\<bar>(x2 - sx * rx') - (x2 - sx * rx)\<bar> \<le> 1"
      using s(1) by (auto simp: rx'_def)
    have cy: "\<bar>(y2 - sy * ry') - (y2 - sy * ry)\<bar> \<le> 1"
      using s(2) by (auto simp: ry'_def)
    have len: "length ((x2 - sx * rx, y2 - sy * ry) # cs) \<le> nat (rx + ry) + 1"
    proof -
      from m have "Suc (nat (rx' + ry')) \<le> nat (rx + ry)" by (rule Suc_leI)
      with cs(6) show ?thesis by simp
    qed
    show ?thesis
      unfolding u using cs(2-5) cx cy len by (simp add: connected8_Cons)
  qed
qed

lemma line_cells_walk:
  assumes "\<bar>x2 - x1\<bar> < 2 ^ 29" and "\<bar>y2 - y1\<bar> < 2 ^ 29"
  shows "line_cells x1 y1 x2 y2 =
           printLine_cells x2 y2 \<bar>x2 - x1\<bar> \<bar>y2 - y1\<bar> (if x1 < x2 then 1 else - 1)
             (if y1 < y2 then 1 else - 1) x1 y1 (\<bar>x2 - x1\<bar> - \<bar>y2 - y1\<bar>)"
proof -
  have p: "checked (x2 - x1) = Some (x2 - x1)" "checked \<bar>x2 - x1\<bar> = Some \<bar>x2 - x1\<bar>"
    "checked (y2 - y1) = Some (y2 - y1)" "checked \<bar>y2 - y1\<bar> = Some \<bar>y2 - y1\<bar>"
    "checked (\<bar>x2 - x1\<bar> - \<bar>y2 - y1\<bar>) = Some (\<bar>x2 - x1\<bar> - \<bar>y2 - y1\<bar>)"
    using assms by (auto simp: checked_def int_ok_def INT_MIN_def INT_MAX_def)
  show ?thesis
    unfolding line_cells_def by (simp only: p Option.bind.simps)
qed

lemma line_cells_terminates:
  assumes ok: "int_ok x1" "int_ok y1" "int_ok x2" "int_ok y2"
    and b: "\<bar>x2 - x1\<bar> < 2 ^ 29" "\<bar>y2 - y1\<bar> < 2 ^ 29"
  shows "\<exists>cs. line_cells x1 y1 x2 y2 = Some cs \<and> cs \<noteq> [] \<and> hd cs = (x1, y1) \<and>
     last cs = (x2, y2) \<and> connected8 cs \<and>
     length cs \<le> nat (\<bar>x2 - x1\<bar> + \<bar>y2 - y1\<bar>) + 1"
proof (cases "x1 = x2 \<and> y1 = y2")
  case True
  then show ?thesis
    unfolding line_cells_walk[OF b] by (subst printLine_cells_unfold) simp
next
  case False
  define dx where "dx = \<bar>x2 - x1\<bar>"
  define dy where "dy = \<bar>y2 - y1\<bar>"
  define sx :: int where "sx = (if x1 < x2 then 1 else - 1)"
  define sy :: int where "sy = (if y1 < y2 then 1 else - 1)"
  have s: "sx = 1 \<or> sx = - 1" "sy = 1 \<or> sy = - 1" by (simp_all add: sx_def sy_def)
  have d: "0 \<le> dx" "0 \<le> dy" "dx < 2 ^ 29" "dy < 2 ^ 29"
    using b by (simp_all add: dx_def dy_def)
  have x: "x2 - sx * dx = x1" and y: "y2 - sy * dy = y1"
    by (simp_all add: sx_def sy_def dx_def dy_def)
  have ok': "int_ok x2" "int_ok y2" "int_ok (x2 - sx * dx)" "int_ok (y2 - sy * dy)"
    using ok by (simp_all add: x y)
  have e: "dx - dy = dx - dy + dx * dy - dy * dx" by simp
  have "0 < dx \<or> 0 < dy" using False by (auto simp: dx_def dy_def)
  then have inv: "bres_inv dx dy dx dy" using d by (auto simp: bres_inv_def)
  from printLine_cells_terminates[OF s d ok' d(1,2) order_refl order_refl e inv]
  show ?thesis
    unfolding line_cells_walk[OF b] x y dx_def[symmetric] dy_def[symmetric]
      sx_def[symmetric] sy_def[symmetric] .
qed

subsection \<open>The loop of \<open>printLine\<close> and the cells it visits\<close>

lemma printLine_cells_Some:
  assumes "printLine_cells x2 y2 dx dy sx sy x1 y1 e1 = Some cs"
  shows "(x1 = x2 \<and> y1 = y2 \<and> cs = [(x1, y1)]) \<or>
         (\<not> (x1 = x2 \<and> y1 = y2) \<and>
          (\<exists>st cs'. next_state dx dy sx sy x1 y1 e1 = Some st \<and> cs = (x1, y1) # cs' \<and>
             printLine_cells x2 y2 dx dy sx sy (fst st) (fst (snd st)) (snd (snd st)) =
               Some cs'))"
  using assms
  by (subst (asm) printLine_cells_unfold) (auto split: if_splits bind_splits)

lemma printLine_loop_cells:
  "printLine_cells x2 y2 dx dy sx sy x1 y1 e1 = Some cs \<Longrightarrow>
   printLine_loop x2 y2 dx dy sx sy color character x1 y1 e1 s =
     for_each (\<lambda>c. setCell (fst c) (snd c) color character) cs s"
proof (induction cs arbitrary: x1 y1 e1 s)
  case Nil
  from printLine_cells_Some[OF Nil] show ?case by simp
next
  case (Cons c cs)
  from printLine_cells_Some[OF Cons.prems] show ?case
  proof
    assume "x1 = x2 \<and> y1 = y2 \<and> c # cs = [(x1, y1)]"
    then show ?thesis
      by (subst printLine_loop_unfold) (simp cong: Option.bind_cong)
  next
    assume "\<not> (x1 = x2 \<and> y1 = y2) \<and>
          (\<exists>st cs'. next_state dx dy sx sy x1 y1 e1 = Some st \<and> c # cs = (x1, y1) # cs' \<and>
             printLine_cells x2 y2 dx dy sx sy (fst st) (fst (snd st)) (snd (snd st)) =
               Some cs')"
    then obtain st where ne: "\<not> (x1 = x2 \<and> y1 = y2)"
      and st: "next_state dx dy sx sy x1 y1 e1 = Some st" and c: "c = (x1, y1)"
      and r: "printLine_cells x2 y2 dx dy sx sy (fst st) (fst (snd st)) (snd (snd st)) = Some cs"
      by auto
    show ?thesis
      by (subst printLine_loop_unfold)
         (simp only: ne if_False st Option.bind.simps Cons.IH[OF r] c for_each.simps
            fst_conv snd_conv)
  qed
qed

text \<open>
  Conversely, a loop that returns has walked a sequence of cells: the walk does not
  depend on the plot.
\<close>

lemma printLine_loop_Some:
  assumes "printLine_loop x2 y2 dx dy sx sy color character x1 y1 e1 s = Some s'"
  shows "\<exists>cs. printLine_cells x2 y2 dx dy sx sy x1 y1 e1 = Some cs"
proof -
  define P where
    "P = (\<lambda>(x2 :: int) (y2 :: int) (dx :: int) (dy :: int) (sx :: int) (sy :: int)
           (color :: int8) (character :: char) (x1 :: int) (y1 :: int) (e1 :: int)
           (s :: Plot) (r :: Plot).
           \<exists>cs. printLine_cells x2 y2 dx dy sx sy x1 y1 e1 = Some cs)"
  have "P x2 y2 dx dy sx sy color character x1 y1 e1 s s'"
  proof (rule printLine_loop.raw_induct[where P = P, OF _ assms])
    fix f :: "int \<Rightarrow> int \<Rightarrow> int \<Rightarrow> int \<Rightarrow> int \<Rightarrow> int \<Rightarrow> int8 \<Rightarrow> char \<Rightarrow> int \<Rightarrow> int \<Rightarrow> int \<Rightarrow> Plot
                \<Rightarrow> Plot option"
    fix x2 y2 dx dy sx sy :: int and color :: int8 and character :: char
    fix x1 y1 e1 :: int and s r :: Plot
    assume IH: "\<And>y2 dx dy sx sy color character x1 y1 e1 s b y.
                  f y2 dx dy sx sy color character x1 y1 e1 s b = Some y \<Longrightarrow>
                  P y2 dx dy sx sy color character x1 y1 e1 s b y"
    assume body:
      "Option.bind (setCell x1 y1 color character s) (\<lambda>s'.
            if x1 = x2 \<and> y1 = y2 then Some s'
            else
              Option.bind (checked (e1 * 2)) (\<lambda>e2.
              Option.bind (checked (- dy)) (\<lambda>ndy.
              Option.bind (if e1 > ndy then checked (e1 - dy) else Some e1) (\<lambda>e1'.
              Option.bind (if e1 > ndy then checked (x1 + sx) else Some x1) (\<lambda>x1'.
              Option.bind (if e2 < dx then checked (e1' + dx) else Some e1') (\<lambda>e1''.
              Option.bind (if e2 < dx then checked (y1 + sy) else Some y1) (\<lambda>y1'.
                f x2 y2 dx dy sx sy color character x1' y1' e1'' s'))))))) = Some r"
    show "P x2 y2 dx dy sx sy color character x1 y1 e1 s r"
    proof (cases "x1 = x2 \<and> y1 = y2")
      case True
      then have "printLine_cells x2 y2 dx dy sx sy x1 y1 e1 = Some [(x1, y1)]"
        by (subst printLine_cells_unfold) simp
      then show ?thesis unfolding P_def by blast
    next
      case False
      have "Option.bind (setCell x1 y1 color character s) (\<lambda>s1.
              if x1 = x2 \<and> y1 = y2 then Some s1
              else Option.bind (next_state dx dy sx sy x1 y1 e1)
                     (\<lambda>st. f x2 y2 dx dy sx sy color character
                             (fst st) (fst (snd st)) (snd (snd st)) s1)) = Some r"
        using body by (simp only: body_next_state)
      then have "\<exists>s1 st. next_state dx dy sx sy x1 y1 e1 = Some st \<and>
          f x2 y2 dx dy sx sy color character (fst st) (fst (snd st)) (snd (snd st)) s1 = Some r"
        using False by (simp only: bind_eq_Some_conv if_False) blast
      then obtain s1 st where
        st: "next_state dx dy sx sy x1 y1 e1 = Some st"
        and f: "f x2 y2 dx dy sx sy color character (fst st) (fst (snd st)) (snd (snd st)) s1 =
                  Some r"
        by blast
      from IH[OF f] obtain cs where
        "printLine_cells x2 y2 dx dy sx sy (fst st) (fst (snd st)) (snd (snd st)) = Some cs"
        unfolding P_def by blast
      then have "printLine_cells x2 y2 dx dy sx sy x1 y1 e1 = Some ((x1, y1) # cs)"
        using False st
        by (subst printLine_cells_unfold) (simp only: if_False Option.bind.simps)
      then show ?thesis unfolding P_def by blast
    qed
  qed
  then show ?thesis unfolding P_def .
qed

lemma printLine_loop_eq:
  "printLine_loop x2 y2 dx dy sx sy color character x1 y1 e1 s =
     Option.bind (printLine_cells x2 y2 dx dy sx sy x1 y1 e1)
       (\<lambda>cs. for_each (\<lambda>c. setCell (fst c) (snd c) color character) cs s)"
proof (cases "printLine_cells x2 y2 dx dy sx sy x1 y1 e1")
  case None
  have "printLine_loop x2 y2 dx dy sx sy color character x1 y1 e1 s = None"
  proof (rule ccontr)
    assume "printLine_loop x2 y2 dx dy sx sy color character x1 y1 e1 s \<noteq> None"
    then obtain s' where
      "printLine_loop x2 y2 dx dy sx sy color character x1 y1 e1 s = Some s'" by blast
    from printLine_loop_Some[OF this] None show False by simp
  qed
  with None show ?thesis by simp
next
  case (Some cs)
  from printLine_loop_cells[OF Some] Some show ?thesis by simp
qed

lemma line_loop_eq:
  "do {
     ax \<leftarrow> checked (x2 - x1);
     dx \<leftarrow> checked \<bar>ax\<bar>;
     ay \<leftarrow> checked (y2 - y1);
     dy \<leftarrow> checked \<bar>ay\<bar>;
     e1 \<leftarrow> checked (dx - dy);
     printLine_loop x2 y2 dx dy (if x1 < x2 then 1 else - 1) (if y1 < y2 then 1 else - 1)
       color character x1 y1 e1 s
   } =
   Option.bind (line_cells x1 y1 x2 y2)
     (\<lambda>cs. for_each (\<lambda>c. setCell (fst c) (snd c) color character) cs s)"
  by (simp only: line_cells_def printLine_loop_eq Option.bind_assoc)

lemma printLine_eq:
  "printLine l color character s =
     do {
       x1 \<leftarrow> to_int (mapX s (ln_a l));
       y1 \<leftarrow> to_int (mapY s (ln_a l));
       x2 \<leftarrow> to_int (mapX s (ln_b l));
       y2 \<leftarrow> to_int (mapY s (ln_b l));
       cs \<leftarrow> line_cells x1 y1 x2 y2;
       for_each (\<lambda>c. setCell (fst c) (snd c) color character) cs s
     }"
  by (simp only: printLine_def line_loop_eq)

lemma setCell_shape:
  assumes "printBuf s = Some buf" "length buf = nat (plot_w s * plot_h s)"
  shows "\<exists>buf'. setCell x y color character s = Some (s\<lparr>printBuf := Some buf'\<rparr>) \<and>
           length buf' = length buf"
proof (cases "in_grid s x y")
  case True
  let ?b = "buf[cell_index s x y :=
                   (if character = CHR 0x00
                    then setCell_block (invertedY s) y color (buf ! cell_index s x y)
                    else setCell_char (background s) color character (buf ! cell_index s x y))]"
  from setCell_inside[OF True assms, of color character]
  have "setCell x y color character s = Some (s\<lparr>printBuf := Some ?b\<rparr>)" .
  moreover have "length ?b = length buf" by simp
  ultimately show ?thesis by blast
next
  case False
  then have "setCell x y color character s = Some (s\<lparr>printBuf := Some buf\<rparr>)"
    using assms(1) by (simp add: setCell_outside)
  then show ?thesis by blast
qed

lemma for_each_setCell_shape:
  assumes "printBuf s = Some buf" "length buf = nat (plot_w s * plot_h s)"
  shows "\<exists>buf'. for_each (\<lambda>c. setCell (fst c) (snd c) color character) cs s =
             Some (s\<lparr>printBuf := Some buf'\<rparr>) \<and> length buf' = length buf"
  using assms
proof (induction cs arbitrary: s buf)
  case Nil
  then have "s = s\<lparr>printBuf := Some buf\<rparr>" by simp
  then show ?case by (metis for_each.simps(1))
next
  case (Cons c cs)
  from setCell_shape[OF Cons.prems, of "fst c" "snd c" color character] obtain b1 where
    b1: "setCell (fst c) (snd c) color character s = Some (s\<lparr>printBuf := Some b1\<rparr>)"
      "length b1 = length buf" by blast
  have "\<exists>buf'. for_each (\<lambda>c. setCell (fst c) (snd c) color character) cs (s\<lparr>printBuf := Some b1\<rparr>) =
             Some (s\<lparr>printBuf := Some b1\<rparr>\<lparr>printBuf := Some buf'\<rparr>) \<and> length buf' = length b1"
    by (rule Cons.IH) (simp_all add: b1(2) Cons.prems(2))
  then show ?case using b1 by (auto simp: )
qed

text \<open>
  Claim C3, as stated, fails: it holds for no segment whose walk leaves the range of
  \<open>int\<close>. On \<open>demo_grid\<close> the endpoints of the segment from \<open>(0, 0)\<close> to
  \<open>(1100000000, 3)\<close> map to integer coordinates, but the first iteration doubles an
  error term of \<open>1099999997\<close>: a signed overflow, after which \<open>printLine\<close> has no
  defined sequence of cells.
\<close>

theorem printLine_overflow_counterexample:
  "to_int (mapX demo_grid (ln_a demo_far_line)) = Some 0 \<and>
   to_int (mapY demo_grid (ln_a demo_far_line)) = Some 0 \<and>
   to_int (mapX demo_grid (ln_b demo_far_line)) = Some 1100000000 \<and>
   to_int (mapY demo_grid (ln_b demo_far_line)) = Some 3 \<and>
   line_cells 0 0 1100000000 3 = None \<and>
   printLine demo_far_line WHITE (CHR 0x00) demo_grid = None"
proof -
  have m: "to_int (mapX demo_grid (ln_a demo_far_line)) = Some 0"
    "to_int (mapY demo_grid (ln_a demo_far_line)) = Some 0"
    "to_int (mapX demo_grid (ln_b demo_far_line)) = Some 1100000000"
    "to_int (mapY demo_grid (ln_b demo_far_line)) = Some 3"
    by (simp_all add: demo_eval demo_far_line_def)
  have n: "next_state 1100000000 3 1 1 0 0 1099999997 = None"
    by (simp add: next_state_def checked_def int_ok_def INT_MIN_def INT_MAX_def)
  have c: "printLine_cells 1100000000 3 1100000000 3 1 1 0 0 1099999997 = None"
    by (subst printLine_cells_unfold) (simp add: n)
  have l: "line_cells 0 0 1100000000 3 = None"
    by (simp add: line_cells_def checked_def int_ok_def INT_MIN_def INT_MAX_def c)
  have "printLine demo_far_line WHITE (CHR 0x00) demo_grid = None"
    unfolding printLine_eq by (simp only: m l Option.bind.simps)
  with m l show ?thesis by simp
qed

text \<open>
  Claim C3, amended. For a segment whose endpoints map to the integer coordinates
  \<open>(x1, y1)\<close> and \<open>(x2, y2)\<close>, less than \<open>2^29\<close> apart in each direction, \<open>printLine\<close>
  calls \<open>setCell\<close> on a sequence of cells that starts at \<open>(x1, y1)\<close>, ends at
  \<open>(x2, y2)\<close>, and in which each cell differs from its predecessor by at most 1 in
  \<open>x\<close> and at most 1 in \<open>y\<close>.
\<close>

theorem printLine_path_connected:
  assumes "to_int (mapX s (ln_a l)) = Some x1" and "to_int (mapY s (ln_a l)) = Some y1"
    and "to_int (mapX s (ln_b l)) = Some x2" and "to_int (mapY s (ln_b l)) = Some y2"
    and "\<bar>x2 - x1\<bar> < 2 ^ 29" and "\<bar>y2 - y1\<bar> < 2 ^ 29"
  shows "\<exists>cs. line_cells x1 y1 x2 y2 = Some cs \<and>
           printLine l color character s =
             for_each (\<lambda>c. setCell (fst c) (snd c) color character) cs s \<and>
           cs \<noteq> [] \<and> hd cs = (x1, y1) \<and> last cs = (x2, y2) \<and> connected8 cs"
proof -
  have ok: "int_ok x1" "int_ok y1" "int_ok x2" "int_ok y2"
    using assms(1-4) by (simp_all add: to_int_ok)
  from line_cells_terminates[OF ok assms(5,6)] obtain cs where
    cs: "line_cells x1 y1 x2 y2 = Some cs" "cs \<noteq> []" "hd cs = (x1, y1)"
      "last cs = (x2, y2)" "connected8 cs" by blast
  have "printLine l color character s =
          for_each (\<lambda>c. setCell (fst c) (snd c) color character) cs s"
    unfolding printLine_eq by (simp only: assms(1-4) cs(1) Option.bind.simps)
  with cs show ?thesis by blast
qed

theorem printLine_path_connected_witness:
  "\<exists>cs. line_cells 0 0 3 3 = Some cs \<and>
     printLine demo_line WHITE (CHR 0x00) demo_grid =
       for_each (\<lambda>c. setCell (fst c) (snd c) WHITE (CHR 0x00)) cs demo_grid \<and>
     cs \<noteq> [] \<and> hd cs = (0, 0) \<and> last cs = (3, 3) \<and> connected8 cs"
  by (rule printLine_path_connected) (simp_all add: demo_eval demo_line_def)

text \<open>
  Claim C4, as stated, fails: not for every pair of integer endpoints does the loop
  reach the target. Started as \<open>printLine\<close> starts it for the endpoints \<open>(0, 0)\<close> and
  \<open>(1100000000, 3)\<close>, all of them values of \<open>int\<close>, the loop overflows \<open>int\<close> in
  its first iteration and has no defined result.
\<close>

theorem printLine_loop_overflow_counterexample:
  "int_ok 0 \<and> int_ok 1100000000 \<and> int_ok 3 \<and>
   \<bar>1100000000 - 0\<bar> = (1100000000 :: int) \<and> \<bar>3 - 0\<bar> = (3 :: int) \<and>
   printLine_loop 1100000000 3 1100000000 3 1 1 WHITE (CHR 0x00) 0 0 (1100000000 - 3)
     demo_grid = None"
proof -
  have n: "next_state 1100000000 3 1 1 0 0 1099999997 = None"
    by (simp add: next_state_def checked_def int_ok_def INT_MIN_def INT_MAX_def)
  have "printLine_loop 1100000000 3 1100000000 3 1 1 WHITE (CHR 0x00) 0 0 1099999997
          demo_grid = None"
    by (subst printLine_loop_unfold) (simp add: n)
  then show ?thesis by (simp add: int_ok_def INT_MIN_def INT_MAX_def)
qed

text \<open>
  Claim C4, amended. For integer endpoints less than \<open>2^29\<close> apart in each direction
  the loop of \<open>printLine\<close> terminates: it is the sequence of calls of \<open>setCell\<close> on the
  cells of a walk that starts at \<open>(x1, y1)\<close> and reaches \<open>(x2, y2)\<close> after at most
  \<open>dx + dy + 1\<close> cells, for every combination of \<open>dx\<close> and \<open>dy\<close>, and on a plot whose
  buffer is allocated for its size it returns.
\<close>

theorem printLine_loop_terminates:
  assumes "int_ok x1" and "int_ok y1" and "int_ok x2" and "int_ok y2"
    and "\<bar>x2 - x1\<bar> < 2 ^ 29" and "\<bar>y2 - y1\<bar> < 2 ^ 29"
  shows "\<exists>cs. line_cells x1 y1 x2 y2 = Some cs \<and> hd cs = (x1, y1) \<and> last cs = (x2, y2) \<and>
     length cs \<le> nat (\<bar>x2 - x1\<bar> + \<bar>y2 - y1\<bar>) + 1 \<and>
     (\<forall>s. printLine_loop x2 y2 \<bar>x2 - x1\<bar> \<bar>y2 - y1\<bar>
            (if x1 < x2 then 1 else - 1) (if y1 < y2 then 1 else - 1)
            color character x1 y1 (\<bar>x2 - x1\<bar> - \<bar>y2 - y1\<bar>) s =
          for_each (\<lambda>c. setCell (fst c) (snd c) color character) cs s) \<and>
     (\<forall>s buf. printBuf s = Some buf \<and> length buf = nat (plot_w s * plot_h s) \<longrightarrow>
        (\<exists>s'. printLine_loop x2 y2 \<bar>x2 - x1\<bar> \<bar>y2 - y1\<bar>
                (if x1 < x2 then 1 else - 1) (if y1 < y2 then 1 else - 1)
                color character x1 y1 (\<bar>x2 - x1\<bar> - \<bar>y2 - y1\<bar>) s = Some s'))"
proof -
  from line_cells_terminates[OF assms] obtain cs where
    cs: "line_cells x1 y1 x2 y2 = Some cs" "hd cs = (x1, y1)" "last cs = (x2, y2)"
      "length cs \<le> nat (\<bar>x2 - x1\<bar> + \<bar>y2 - y1\<bar>) + 1" by blast
  from cs(1) have "printLine_cells x2 y2 \<bar>x2 - x1\<bar> \<bar>y2 - y1\<bar> (if x1 < x2 then 1 else - 1)
          (if y1 < y2 then 1 else - 1) x1 y1 (\<bar>x2 - x1\<bar> - \<bar>y2 - y1\<bar>) = Some cs"
    by (simp only: line_cells_walk[OF assms(5,6)])
  from printLine_loop_cells[OF this]
  have l: "printLine_loop x2 y2 \<bar>x2 - x1\<bar> \<bar>y2 - y1\<bar> (if x1 < x2 then 1 else - 1)
          (if y1 < y2 then 1 else - 1) color character x1 y1 (\<bar>x2 - x1\<bar> - \<bar>y2 - y1\<bar>) s =
        for_each (\<lambda>c. setCell (fst c) (snd c) color character) cs s" for s .
  have "\<exists>s'. printLine_loop x2 y2 \<bar>x2 - x1\<bar> \<bar>y2 - y1\<bar> (if x1 < x2 then 1 else - 1)
          (if y1 < y2 then 1 else - 1) color character x1 y1 (\<bar>x2 - x1\<bar> - \<bar>y2 - y1\<bar>) s = Some s'"
    if "printBuf s = Some buf" "length buf = nat (plot_w s * plot_h s)" for s buf
    unfolding l using for_each_setCell_shape[OF that, of color character cs] by blast
  with cs l show ?thesis by blast
qed

theorem printLine_loop_terminates_witness:
  "\<exists>cs. line_cells 3 7 (- 2) 9 = Some cs \<and> hd cs = (3, 7) \<and> last cs = (- 2, 9) \<and>
     length cs \<le> 8 \<and>
     printLine_loop (- 2) 9 5 2 (- 1) 1 RED (CHR ''x'') 3 7 3 demo_grid =
       for_each (\<lambda>c. setCell (fst c) (snd c) RED (CHR ''x'')) cs demo_grid \<and>
     (\<exists>s'. printLine_loop (- 2) 9 5 2 (- 1) 1 RED (CHR ''x'') 3 7 3 demo_grid = Some s')"
proof -
  have b: "printBuf demo_grid = Some (replicate 8 \<lparr>ch = EMPTY, co = 0\<rparr>) \<and>
        length (replicate 8 \<lparr>ch = EMPTY, co = 0\<rparr>) = nat (plot_w demo_grid * plot_h demo_grid)"
    by (simp add: demo_grid_def)
  have h: "int_ok 3" "int_ok 7" "int_ok (- 2)" "int_ok 9"
    "\<bar>- 2 - 3\<bar> < (2 :: int) ^ 29" "\<bar>9 - 7\<bar> < (2 :: int) ^ 29"
    by (simp_all add: int_ok_def INT_MIN_def INT_MAX_def)
  from printLine_loop_terminates [OF h, of RED "CHR ''x''"]
  have "\<exists>cs. line_cells 3 7 (- 2) 9 = Some cs \<and> hd cs = (3, 7) \<and> last cs = (- 2, 9) \<and>
     length cs \<le> 8 \<and>
     (\<forall>s. printLine_loop (- 2) 9 5 2 (- 1) 1 RED (CHR ''x'') 3 7 3 s =
        for_each (\<lambda>c. setCell (fst c) (snd c) RED (CHR ''x'')) cs s) \<and>
     (\<forall>s buf. printBuf s = Some buf \<and> length buf = nat (plot_w s * plot_h s) \<longrightarrow>
        (\<exists>s'. printLine_loop (- 2) 9 5 2 (- 1) 1 RED (CHR ''x'') 3 7 3 s = Some s'))"
    by simp
  then obtain cs where
    cs: "line_cells 3 7 (- 2) 9 = Some cs" "hd cs = (3, 7)" "last cs = (- 2, 9)" "length cs \<le> 8"
    and l: "\<forall>s. printLine_loop (- 2) 9 5 2 (- 1) 1 RED (CHR ''x'') 3 7 3 s =
        for_each (\<lambda>c. setCell (fst c) (snd c) RED (CHR ''x'')) cs s"
    and r: "\<forall>s buf. printBuf s = Some buf \<and> length buf = nat (plot_w s * plot_h s) \<longrightarrow>
        (\<exists>s'. printLine_loop (- 2) 9 5 2 (- 1) 1 RED (CHR ''x'') 3 7 3 s = Some s')"
    by (elim exE conjE)
  from r[rule_format, OF b]
  have e: "\<exists>s'. printLine_loop (- 2) 9 5 2 (- 1) 1 RED (CHR ''x'') 3 7 3 demo_grid = Some s'" .
  from l have "printLine_loop (- 2) 9 5 2 (- 1) 1 RED (CHR ''x'') 3 7 3 demo_grid =
       for_each (\<lambda>c. setCell (fst c) (snd c) RED (CHR ''x'')) cs demo_grid" by (rule spec)
  with cs e show ?thesis by (intro exI[of _ cs] conjI)
qed

subsection \<open>The coordinate mapping\<close>

lemma floor_minus_half: "\<lfloor>- (1 / 2) :: rat\<rfloor> = - 1"
  by (rule floor_unique) simp_all

lemma ceiling_minus_half: "\<lceil>- (1 / 2) :: rat\<rceil> = 0"
  by (rule ceiling_unique) simp_all

lemma demo_grid_built:
  "Option.bind (Plot_sized \<lparr>pt_x = Fin 0, pt_y = Fin 0\<rparr> (Fin 0) (Fin 0) 4 2)
     (\<lambda>s. Some (setDrawRange (Fin 0) (Fin 0) (Fin 4) (Fin 4) s)) = Some demo_grid"
  by (simp add: Plot_sized_def Plot_default_def setSize_def setDrawRange_def clearPlot_def
      demo_grid_def BLACK_def EMPTY_def numeral_eq_Suc promote_def narrow_def)

text \<open>
  Claim C2 does not hold of the code: the quotient is converted to \<open>int\<close> by
  truncation towards zero, and nothing takes its floor. On \<open>Plot(4, 2)\<close> with
  \<open>setDrawRange(0, 0, 4, 4)\<close> the point \<open>(-0.5, 0)\<close> lies left of the minimum
  \<open>x\<close> of the window. The floor of its quotient \<open>-0.5\<close> is \<open>-1\<close>, a column on which
  \<open>setCell\<close> returns the plot unchanged; the code maps the point to column 0 and draws
  it in the first cell. (The values \<open>-0.5\<close>, \<open>-2\<close> and \<open>4\<close> of the computation are
  exact in \<open>double\<close>.)
\<close>

theorem point_left_of_window_drawn:
  "Option.bind (Plot_sized \<lparr>pt_x = Fin 0, pt_y = Fin 0\<rparr> (Fin 0) (Fin 0) 4 2)
     (\<lambda>s. Some (setDrawRange (Fin 0) (Fin 0) (Fin 4) (Fin 4) s)) = Some demo_grid \<and>
   to_int (mapX demo_grid \<lparr>pt_x = Fin (- 1 / 2), pt_y = Fin 0\<rparr>) = Some 0 \<and>
   spec_col (- 1 / 2) 0 4 4 = - 1 \<and>
   setCell (spec_col (- 1 / 2) 0 4 4) 0 WHITE (CHR 0x00) demo_grid = Some demo_grid \<and>
   printPoint \<lparr>pt_x = Fin (- 1 / 2), pt_y = Fin 0\<rparr> WHITE (CHR 0x00) demo_grid =
     Some (demo_grid\<lparr>printBuf :=
       Some ((replicate 8 \<lparr>ch = EMPTY, co = 0\<rparr>)[0 := \<lparr>ch = BLOCK, co = WHITE\<rparr>])\<rparr>) \<and>
   map_option printBuf (point (Fin (- 1 / 2)) (Fin 0) WHITE (CHR 0x00) demo_grid) =
     Some (Some ((replicate 8 \<lparr>ch = EMPTY, co = 0\<rparr>)[0 := \<lparr>ch = BLOCK, co = WHITE\<rparr>]))"
proof -
  have m: "to_int (mapX demo_grid \<lparr>pt_x = Fin (- 1 / 2), pt_y = Fin 0\<rparr>) = Some 0"
    by (simp add: demo_eval floor_minus_half ceiling_minus_half)
  have f: "spec_col (- 1 / 2) 0 4 4 = - 1"
    by (simp add: spec_col_def floor_minus_half)
  have c: "setCell (spec_col (- 1 / 2) 0 4 4) 0 WHITE (CHR 0x00) demo_grid = Some demo_grid"
    unfolding f by (simp add: setCell_def)
  have p: "printPoint \<lparr>pt_x = Fin (- 1 / 2), pt_y = Fin 0\<rparr> WHITE (CHR 0x00) demo_grid =
     Some (demo_grid\<lparr>printBuf :=
       Some ((replicate 8 \<lparr>ch = EMPTY, co = 0\<rparr>)[0 := \<lparr>ch = BLOCK, co = WHITE\<rparr>])\<rparr>)"
    by (simp add: demo_eval printPoint_def setCell_def setCell_block_eq WHITE_def
        floor_minus_half ceiling_minus_half)
  have q: "map_option printBuf (point (Fin (- 1 / 2)) (Fin 0) WHITE (CHR 0x00) demo_grid) =
     Some (Some ((replicate 8 \<lparr>ch = EMPTY, co = 0\<rparr>)[0 := \<lparr>ch = BLOCK, co = WHITE\<rparr>]))"
    by (simp add: point_def Let_def demo_eval printPoint_def setCell_def setCell_block_eq
        WHITE_def floor_minus_half ceiling_minus_half)
  from demo_grid_built m f c p q show ?thesis by (intro conjI)
qed

subsection \<open>What rasterization leaves alone\<close>

lemma setCell_frame:
  "setCell x y color character s = Some s' \<Longrightarrow> \<exists>pb. s' = s\<lparr>printBuf := pb\<rparr>"
  by (auto simp: setCell_def Let_def split: if_splits option.splits
      intro: exI[of _ "printBuf s"])

lemma for_each_frame:
  assumes "\<And>v s s'. f v s = Some s' \<Longrightarrow> \<exists>pb. s' = s\<lparr>printBuf := pb\<rparr>"
  shows "for_each f vs s = Some s' \<Longrightarrow> \<exists>pb. s' = s\<lparr>printBuf := pb\<rparr>"
proof (induction vs arbitrary: s)
  case Nil
  then have "s' = s\<lparr>printBuf := printBuf s\<rparr>" by simp
  then show ?case by blast
next
  case (Cons v vs)
  then obtain s1 where s1: "f v s = Some s1" "for_each f vs s1 = Some s'"
    by (auto split: bind_splits)
  from assms[OF s1(1)] obtain pb where "s1 = s\<lparr>printBuf := pb\<rparr>" by blast
  moreover from Cons.IH[OF s1(2)] obtain pb' where "s' = s1\<lparr>printBuf := pb'\<rparr>" by blast
  ultimately have "s' = s\<lparr>printBuf := pb'\<rparr>" by simp
  then show ?case by blast
qed

lemma printPoint_frame:
  "printPoint p color character s = Some s' \<Longrightarrow> \<exists>pb. s' = s\<lparr>printBuf := pb\<rparr>"
  by (auto simp: printPoint_def split: bind_splits dest: setCell_frame)

lemma printLine_frame:
  "printLine l color character s = Some s' \<Longrightarrow> \<exists>pb. s' = s\<lparr>printBuf := pb\<rparr>"
  unfolding printLine_eq
  by (auto split: bind_splits dest!: for_each_frame[rotated] setCell_frame)

lemma render_frame:
  assumes "render s = Some s'"
  shows "\<exists>pb. s' = (window_of s)\<lparr>printBuf := pb\<rparr>"
proof -
  let ?ls = "for_each (\<lambda>c. for_each (\<lambda>l. printLine l (co (fst c)) (ch (fst c))) (snd c))"
  let ?ps = "for_each (\<lambda>c. for_each (\<lambda>p. printPoint p (co (fst c)) (ch (fst c))) (snd c))"
  from assms obtain s2 where
    a: "?ls (lines (window_of s)) (window_of s) = Some s2" and b: "?ps (points s2) s2 = Some s'"
    by (auto simp: render_def window_of_def Let_def split: bind_splits)
  have "\<exists>pb. s2 = (window_of s)\<lparr>printBuf := pb\<rparr>"
    by (rule for_each_frame[OF _ a]) (erule for_each_frame[rotated], erule printLine_frame)
  moreover have "\<exists>pb. s' = s2\<lparr>printBuf := pb\<rparr>"
    by (rule for_each_frame[OF _ b]) (erule for_each_frame[rotated], erule printPoint_frame)
  ultimately show ?thesis by auto
qed

subsection \<open>The running bounding box\<close>

lemma updateXYMinMax_fields:
  "minX (updateXYMinMax p s) = (if dless (pt_x p) (minX s) then pt_x p else minX s)"
  "minY (updateXYMinMax p s) = (if dless (pt_y p) (minY s) then pt_y p else minY s)"
  "maxX (updateXYMinMax p s) = (if dless (maxX s) (pt_x p) then pt_x p else maxX s)"
  "maxY (updateXYMinMax p s) = (if dless (maxY s) (pt_y p) then pt_y p else maxY s)"
  "points (updateXYMinMax p s) = points s"
  "lines (updateXYMinMax p s) = lines s"
  "plot_range (updateXYMinMax p s) = plot_range s"
  by (simp_all add: updateXYMinMax_def Let_def)

lemma endpoints_updateXYMinMax [simp]: "endpoints (updateXYMinMax p s) = endpoints s"
  by (simp add: endpoints_def updateXYMinMax_fields)

lemma set_push_back_at:
  "set (concat (map snd (push_back_at k v m))) = insert v (set (concat (map snd m)))"
proof (induction m)
  case Nil
  show ?case by simp
next
  case (Cons a m)
  obtain k' vs where a: "a = (k', vs)" by (cases a)
  show ?case
  proof (cases "k' = k")
    case True
    then show ?thesis by (simp add: a)
  next
    case False
    have "set (concat (map snd (push_back_at k v (a # m)))) =
            set vs \<union> set (concat (map snd (push_back_at k v m)))"
      using False by (simp add: a)
    also have "\<dots> = set vs \<union> insert v (set (concat (map snd m)))"
      by (simp only: Cons.IH)
    also have "\<dots> = insert v (set (concat (map snd (a # m))))"
      by (simp add: a)
    finally show ?thesis .
  qed
qed

lemma set_endpoints_point:
  "set (endpoints (s\<lparr>points := push_back_at k p (points s)\<rparr>)) = insert p (set (endpoints s))"
proof -
  have a: "points (s\<lparr>points := v\<rparr>) = v" "lines (s\<lparr>points := v\<rparr>) = lines s" for v
    by simp_all
  show ?thesis
    unfolding endpoints_def a set_append set_push_back_at by (rule Un_insert_left)
qed

lemma set_endpoints_line:
  "set (endpoints (s\<lparr>lines := push_back_at k l (lines s)\<rparr>)) =
     insert (ln_a l) (insert (ln_b l) (set (endpoints s)))"
proof -
  have a: "lines (s\<lparr>lines := v\<rparr>) = v" "points (s\<lparr>lines := v\<rparr>) = points s" for v
    by simp_all
  have b: "set (concat (map (\<lambda>l. [ln_a l, ln_b l]) ls)) = (\<Union>l\<in>set ls. {ln_a l, ln_b l})"
    for ls :: "Line list"
    by (induction ls) auto
  show ?thesis
    unfolding endpoints_def a set_append b set_push_back_at by auto
qed

text \<open>One coordinate of \<open>updateXYMinMax\<close>: the bounds of a set, extended by a value.\<close>

lemma track_min:
  assumes "finite X"
    and "if X = {} then mn = PInf else mn = Fin (Min X)"
  shows "(if dless (Fin x) mn then Fin x else mn) = Fin (Min (insert x X))"
proof (cases "X = {}")
  case True
  with assms show ?thesis by simp
next
  case False
  with assms have mn: "mn = Fin (Min X)" by simp
  have m: "Min (insert x X) = min x (Min X)" using assms(1) False by (rule Min_insert)
  obtain M where M: "Min X = M" by simp
  show ?thesis unfolding m mn M by (simp add: min_def)
qed

lemma track_max:
  assumes "finite X"
    and "if X = {} then mx = NInf else mx = Fin (Max X)"
  shows "(if dless mx (Fin x) then Fin x else mx) = Fin (Max (insert x X))"
proof (cases "X = {}")
  case True
  with assms show ?thesis by simp
next
  case False
  with assms have mx: "mx = Fin (Max X)" by simp
  have m: "Max (insert x X) = max x (Max X)" using assms(1) False by (rule Max_insert)
  obtain M where M: "Max X = M" by simp
  show ?thesis unfolding m mx M by (simp add: max_def)
qed

lemma tracks_bbox_tracked: "tracks_bbox s = tracked s (set (endpoints s))"
  by (simp add: tracks_bbox_def tracked_def xs_of_def ys_of_def list_all_iff)

lemma tracked_update:
  assumes "tracked s P" "finite P"
  shows "tracked (updateXYMinMax \<lparr>pt_x = Fin x, pt_y = Fin y\<rparr> s)
           (insert \<lparr>pt_x = Fin x, pt_y = Fin y\<rparr> P)"
proof -
  let ?fx = "\<lambda>p. fin_val (pt_x p)" and ?fy = "\<lambda>p. fin_val (pt_y p)"
  have fx: "finite (?fx ` P)" and fy: "finite (?fy ` P)" using assms(2) by simp_all
  have e: "(?fx ` P = {}) = (P = {})" "(?fy ` P = {}) = (P = {})" by simp_all
  have a: "if ?fx ` P = {} then minX s = PInf else minX s = Fin (Min (?fx ` P))"
    and b: "if ?fx ` P = {} then maxX s = NInf else maxX s = Fin (Max (?fx ` P))"
    and c: "if ?fy ` P = {} then minY s = PInf else minY s = Fin (Min (?fy ` P))"
    and d: "if ?fy ` P = {} then maxY s = NInf else maxY s = Fin (Max (?fy ` P))"
    using assms(1) unfolding e by (auto simp: tracked_def)
  have f: "\<forall>p\<in>P. is_fin (pt_x p) \<and> is_fin (pt_y p)"
    using assms(1) by (simp add: tracked_def)
  let ?s' = "updateXYMinMax \<lparr>pt_x = Fin x, pt_y = Fin y\<rparr> s"
  have mnx: "minX ?s' = Fin (Min (insert x (?fx ` P)))"
    by (simp only: updateXYMinMax_fields Point.select_convs track_min[OF fx a])
  have mxx: "maxX ?s' = Fin (Max (insert x (?fx ` P)))"
    by (simp only: updateXYMinMax_fields Point.select_convs track_max[OF fx b])
  have mny: "minY ?s' = Fin (Min (insert y (?fy ` P)))"
    by (simp only: updateXYMinMax_fields Point.select_convs track_min[OF fy c])
  have mxy: "maxY ?s' = Fin (Max (insert y (?fy ` P)))"
    by (simp only: updateXYMinMax_fields Point.select_convs track_max[OF fy d])
  show ?thesis
    unfolding tracked_def
    using f by (simp add: mnx mxx mny mxy)
qed

lemma point_tracks:
  assumes "tracks_bbox s" "\<not> plot_range s"
  shows "\<exists>s'. point (Fin x) (Fin y) color character s = Some s' \<and> tracks_bbox s' \<and>
           \<not> plot_range s' \<and>
           set (endpoints s') = insert \<lparr>pt_x = Fin x, pt_y = Fin y\<rparr> (set (endpoints s))"
proof -
  let ?p = "\<lparr>pt_x = Fin x, pt_y = Fin y\<rparr>"
  let ?s1 = "s\<lparr>points := push_back_at \<lparr>ch = character, co = color\<rparr> ?p (points s)\<rparr>"
  have p: "point (Fin x) (Fin y) color character s = Some (updateXYMinMax ?p ?s1)"
    using assms(2) by (simp add: point_def Let_def)
  have "tracked ?s1 (set (endpoints s))"
    using assms(1) by (simp add: tracks_bbox_tracked tracked_def)
  from tracked_update[OF this, of x y]
  have "tracks_bbox (updateXYMinMax ?p ?s1)"
    by (simp add: tracks_bbox_tracked set_endpoints_point)
  then show ?thesis
    unfolding p using assms(2) by (simp add: set_endpoints_point updateXYMinMax_fields)
qed

lemma line_tracks:
  assumes "tracks_bbox s" "\<not> plot_range s"
  shows "\<exists>s'. line (Fin xa) (Fin ya) (Fin xb) (Fin yb) color character s = Some s' \<and>
           tracks_bbox s' \<and> \<not> plot_range s' \<and>
           set (endpoints s') =
             insert \<lparr>pt_x = Fin xa, pt_y = Fin ya\<rparr>
               (insert \<lparr>pt_x = Fin xb, pt_y = Fin yb\<rparr> (set (endpoints s)))"
proof -
  let ?a = "\<lparr>pt_x = Fin xa, pt_y = Fin ya\<rparr>" and ?b = "\<lparr>pt_x = Fin xb, pt_y = Fin yb\<rparr>"
  let ?l = "\<lparr>ln_a = ?a, ln_b = ?b\<rparr>"
  let ?s1 = "s\<lparr>lines := push_back_at \<lparr>ch = character, co = color\<rparr> ?l (lines s)\<rparr>"
  have p: "line (Fin xa) (Fin ya) (Fin xb) (Fin yb) color character s =
             Some (updateXYMinMax ?b (updateXYMinMax ?a ?s1))"
    using assms(2) by (simp add: line_def Let_def)
  have "tracked ?s1 (set (endpoints s))"
    using assms(1) by (simp add: tracks_bbox_tracked tracked_def)
  from tracked_update[OF tracked_update[OF this, of xa ya], of xb yb]
  have "tracks_bbox (updateXYMinMax ?b (updateXYMinMax ?a ?s1))"
    by (simp add: tracks_bbox_tracked set_endpoints_line insert_commute)
  then show ?thesis
    unfolding p using assms(2)
    by (simp add: set_endpoints_line updateXYMinMax_fields insert_commute)
qed

lemma render_window:
  assumes "tracks_bbox s" "\<not> plot_range s" "endpoints s \<noteq> []" "render s = Some s'"
  shows "topLeft s' = \<lparr>pt_x = Fin (Min (xs_of s)), pt_y = Fin (Min (ys_of s))\<rparr> \<and>
         plot_dx s' = Fin (Max (xs_of s) - Min (xs_of s)) \<and>
         plot_dy s' = Fin (Max (ys_of s) - Min (ys_of s))"
proof -
  from render_frame[OF assms(4)] obtain pb where "s' = (window_of s)\<lparr>printBuf := pb\<rparr>" by blast
  then show ?thesis
    using assms(1,2,3) by (simp add: window_of_def tracks_bbox_def)
qed

lemma clearData_tracks: "tracks_bbox (clearData s)"
  by (simp add: tracks_bbox_def clearData_def endpoints_def clearPlot_def split: option.splits)

text \<open>
  Claim C9. With no explicit window, the bounds \<open>minX..maxY\<close> are the bounding box of
  the endpoints of all points and lines in the data maps: \<open>clearData\<close> establishes
  this, \<open>point\<close> and \<open>line\<close> (with finite coordinates) keep it while adding their
  endpoints, and \<open>render\<close> then sets the origin of the window to the componentwise
  minimum and its extent to maximum minus minimum. In particular, after adding exactly
  the points \<open>(0,0)\<close> and \<open>(10,10)\<close> to cleared data, a \<open>render\<close> that returns leaves
  the origin \<open>(0,0)\<close> and the extent \<open>(10,10)\<close>.
\<close>

theorem auto_range_bounding_box:
  "tracks_bbox (clearData s) \<and>
   (tracks_bbox s \<and> \<not> plot_range s \<longrightarrow>
      (\<exists>s'. point (Fin x) (Fin y) color character s = Some s' \<and> tracks_bbox s' \<and>
            \<not> plot_range s' \<and>
            set (endpoints s') = insert \<lparr>pt_x = Fin x, pt_y = Fin y\<rparr> (set (endpoints s)))) \<and>
   (tracks_bbox s \<and> \<not> plot_range s \<longrightarrow>
      (\<exists>s'. line (Fin xa) (Fin ya) (Fin xb) (Fin yb) color character s = Some s' \<and>
            tracks_bbox s' \<and> \<not> plot_range s' \<and>
            set (endpoints s') =
              insert \<lparr>pt_x = Fin xa, pt_y = Fin ya\<rparr>
                (insert \<lparr>pt_x = Fin xb, pt_y = Fin yb\<rparr> (set (endpoints s))))) \<and>
   (tracks_bbox s \<and> \<not> plot_range s \<and> endpoints s \<noteq> [] \<and> render s = Some s'' \<longrightarrow>
      topLeft s'' = \<lparr>pt_x = Fin (Min (xs_of s)), pt_y = Fin (Min (ys_of s))\<rparr> \<and>
      plot_dx s'' = Fin (Max (xs_of s) - Min (xs_of s)) \<and>
      plot_dy s'' = Fin (Max (ys_of s) - Min (ys_of s))) \<and>
   (\<not> plot_range s \<longrightarrow>
      (\<exists>s1 s2. point (Fin 0) (Fin 0) c1 g1 (clearData s) = Some s1 \<and>
               point (Fin 10) (Fin 10) c2 g2 s1 = Some s2 \<and>
               (\<forall>s3. render s2 = Some s3 \<longrightarrow>
                  topLeft s3 = \<lparr>pt_x = Fin 0, pt_y = Fin 0\<rparr> \<and>
                  plot_dx s3 = Fin 10 \<and> plot_dy s3 = Fin 10)))"
proof -
  have e: "\<exists>s1 s2. point (Fin 0) (Fin 0) c1 g1 (clearData s) = Some s1 \<and>
               point (Fin 10) (Fin 10) c2 g2 s1 = Some s2 \<and>
               (\<forall>s3. render s2 = Some s3 \<longrightarrow>
                  topLeft s3 = \<lparr>pt_x = Fin 0, pt_y = Fin 0\<rparr> \<and>
                  plot_dx s3 = Fin 10 \<and> plot_dy s3 = Fin 10)"
    if nr: "\<not> plot_range s"
  proof -
    have r0: "\<not> plot_range (clearData s)"
      using nr by (simp add: clearData_def clearPlot_def split: option.splits)
    from point_tracks[OF clearData_tracks r0, of 0 0 c1 g1] obtain s1 where
      s1: "point (Fin 0) (Fin 0) c1 g1 (clearData s) = Some s1" "tracks_bbox s1"
        "\<not> plot_range s1"
        "set (endpoints s1) = insert \<lparr>pt_x = Fin 0, pt_y = Fin 0\<rparr> (set (endpoints (clearData s)))"
      by blast
    from point_tracks[OF s1(2,3), of 10 10 c2 g2] obtain s2 where
      s2: "point (Fin 10) (Fin 10) c2 g2 s1 = Some s2" "tracks_bbox s2" "\<not> plot_range s2"
        "set (endpoints s2) = insert \<lparr>pt_x = Fin 10, pt_y = Fin 10\<rparr> (set (endpoints s1))"
      by blast
    have "set (endpoints (clearData s)) = {}"
      by (simp add: clearData_def endpoints_def)
    with s1(4) s2(4) have es: "set (endpoints s2) =
        {\<lparr>pt_x = Fin 10, pt_y = Fin 10\<rparr>, \<lparr>pt_x = Fin 0, pt_y = Fin 0\<rparr>}" by simp
    have "set (endpoints s2) \<noteq> {}" unfolding es by (rule insert_not_empty)
    then have ne: "endpoints s2 \<noteq> []" by (simp only: set_empty not_False_eq_True)
    have xs: "xs_of s2 = {10, 0}" and ys: "ys_of s2 = {10, 0}"
      by (simp_all add: xs_of_def ys_of_def es)
    have "topLeft s3 = \<lparr>pt_x = Fin 0, pt_y = Fin 0\<rparr> \<and>
          plot_dx s3 = Fin 10 \<and> plot_dy s3 = Fin 10" if "render s2 = Some s3" for s3
      using render_window[OF s2(2,3) ne that] by (simp add: xs ys)
    with s1(1) s2(1) show ?thesis by blast
  qed
  have c1: "tracks_bbox (clearData s)" by (rule clearData_tracks)
  have c2: "tracks_bbox s \<and> \<not> plot_range s \<longrightarrow>
      (\<exists>s'. point (Fin x) (Fin y) color character s = Some s' \<and> tracks_bbox s' \<and>
            \<not> plot_range s' \<and>
            set (endpoints s') = insert \<lparr>pt_x = Fin x, pt_y = Fin y\<rparr> (set (endpoints s)))"
    using point_tracks[of s x y color character] by blast
  have c3: "tracks_bbox s \<and> \<not> plot_range s \<longrightarrow>
      (\<exists>s'. line (Fin xa) (Fin ya) (Fin xb) (Fin yb) color character s = Some s' \<and>
            tracks_bbox s' \<and> \<not> plot_range s' \<and>
            set (endpoints s') =
              insert \<lparr>pt_x = Fin xa, pt_y = Fin ya\<rparr>
                (insert \<lparr>pt_x = Fin xb, pt_y = Fin yb\<rparr> (set (endpoints s))))"
    using line_tracks[of s xa ya xb yb color character] by blast
  have c4: "tracks_bbox s \<and> \<not> plot_range s \<and> endpoints s \<noteq> [] \<and> render s = Some s'' \<longrightarrow>
      topLeft s'' = \<lparr>pt_x = Fin (Min (xs_of s)), pt_y = Fin (Min (ys_of s))\<rparr> \<and>
      plot_dx s'' = Fin (Max (xs_of s) - Min (xs_of s)) \<and>
      plot_dy s'' = Fin (Max (ys_of s) - Min (ys_of s))"
    using render_window[of s s''] by blast
  from e have c5: "\<not> plot_range s \<longrightarrow>
      (\<exists>s1 s2. point (Fin 0) (Fin 0) c1 g1 (clearData s) = Some s1 \<and>
               point (Fin 10) (Fin 10) c2 g2 s1 = Some s2 \<and>
               (\<forall>s3. render s2 = Some s3 \<longrightarrow>
                  topLeft s3 = \<lparr>pt_x = Fin 0, pt_y = Fin 0\<rparr> \<and>
                  plot_dx s3 = Fin 10 \<and> plot_dy s3 = Fin 10))" by (rule impI)
  show ?thesis
    by (rule conjI[OF c1 conjI[OF c2 conjI[OF c3 conjI[OF c4 c5]]]])
qed

theorem auto_range_bounding_box_witness:
  "render (the (point (Fin 10) (Fin 10) WHITE (CHR 0x00)
       (the (point (Fin 0) (Fin 0) RED (CHR ''x'') (clearData demo_auto))))) \<noteq> None \<and>
   topLeft (the (render (the (point (Fin 10) (Fin 10) WHITE (CHR 0x00)
       (the (point (Fin 0) (Fin 0) RED (CHR ''x'') (clearData demo_auto))))))) =
     \<lparr>pt_x = Fin 0, pt_y = Fin 0\<rparr> \<and>
   plot_dx (the (render (the (point (Fin 10) (Fin 10) WHITE (CHR 0x00)
       (the (point (Fin 0) (Fin 0) RED (CHR ''x'') (clearData demo_auto))))))) = Fin 10"
proof -
  have nr: "\<not> plot_range demo_auto" by (simp add: demo_auto_def)
  have r: "render (the (point (Fin 10) (Fin 10) WHITE (CHR 0x00)
       (the (point (Fin 0) (Fin 0) RED (CHR ''x'') (clearData demo_auto))))) \<noteq> None"
    by code_simp
  from auto_range_bounding_box [where s = demo_auto and ?c1.0 = RED and ?g1.0 = "CHR ''x''"
      and ?c2.0 = WHITE and ?g2.0 = "CHR 0x00"] nr
  obtain s1 s2 where
    a: "point (Fin 0) (Fin 0) RED (CHR ''x'') (clearData demo_auto) = Some s1"
       "point (Fin 10) (Fin 10) WHITE (CHR 0x00) s1 = Some s2"
       "\<forall>s3. render s2 = Some s3 \<longrightarrow>
                  topLeft s3 = \<lparr>pt_x = Fin 0, pt_y = Fin 0\<rparr> \<and>
                  plot_dx s3 = Fin 10 \<and> plot_dy s3 = Fin 10"
    by blast
  from r a(1,2) obtain s3 where "render s2 = Some s3" by auto
  with a show ?thesis by simp
qed

subsection \<open>Sentinel writes as pointwise cell transformers\<close>

lemma xf_apply_id [simp]: "xf_apply xf_id c = c"
  by (simp add: xf_apply_def xf_id_def)

lemma xf_apply_then: "xf_apply (xf_then p q) c = xf_apply q (xf_apply p c)"
proof -
  have "EMPTY \<noteq> BLOCK" by (simp add: EMPTY_def BLOCK_def)
  moreover have "(co c AND (fst p AND fst q)) OR ((fst (snd p) AND fst q) OR fst (snd q)) =
        (((co c AND fst p) OR fst (snd p)) AND fst q) OR fst (snd q)"
    by (rule bit_word_eqI) (auto simp: bit_simps)
  ultimately show ?thesis
    by (auto simp: xf_apply_def xf_then_def)
qed

lemma xf_apply_idem: "xf_apply p (xf_apply p c) = xf_apply p c"
proof -
  have "EMPTY \<noteq> BLOCK" by (simp add: EMPTY_def BLOCK_def)
  moreover have "(((co c AND fst p) OR fst (snd p)) AND fst p) OR fst (snd p) =
        (co c AND fst p) OR fst (snd p)"
    by (rule bit_word_eqI) (auto simp: bit_simps)
  ultimately show ?thesis
    by (auto simp: xf_apply_def)
qed

lemma setCell_block_xf:
  "setCell_block inverted y color =
     xf_apply (if (if inverted then y + 1 else y) mod 2 \<noteq> 0
               then (0x0f, push_bit 4 color, True) else (0xf0, color, True))"
  by (rule ext) (simp add: setCell_block_eq xf_apply_def)

lemma length_pw [simp]: "length (pw F buf) = length buf"
  by (simp add: pw_def)

lemma nth_pw [simp]: "i < length buf \<Longrightarrow> pw F buf ! i = xf_apply (F i) (buf ! i)"
  by (simp add: pw_def)

lemma pw_id [simp]: "pw (\<lambda>i. xf_id) buf = buf"
  by (rule nth_equalityI) simp_all

lemma pw_pw: "pw G (pw F buf) = pw (\<lambda>i. xf_then (F i) (G i)) buf"
  by (rule nth_equalityI) (simp_all add: xf_apply_then)

lemma pw_idem: "pw F (pw F buf) = pw F buf"
  by (rule nth_equalityI) (simp_all add: xf_apply_idem)

lemma pw_update:
  "i < length buf \<Longrightarrow> buf[i := xf_apply p (buf ! i)] = pw (\<lambda>j. if j = i then p else xf_id) buf"
  by (rule nth_equalityI) (simp_all add: nth_list_update)

lemma map_option_pw_id [simp]: "map_option (pw (\<lambda>i. xf_id)) pb = pb"
  by (cases pb) simp_all

lemma blockop_setCell: "blockop (setCell x y color (CHR 0x00))"
  unfolding blockop_def
proof (intro allI impI)
  fix s s'
  assume a: "setCell x y color (CHR 0x00) s = Some s'"
  show "\<exists>F. \<forall>pb. map_option length pb = map_option length (printBuf s) \<longrightarrow>
          setCell x y color (CHR 0x00) (s\<lparr>printBuf := pb\<rparr>) =
            Some (s\<lparr>printBuf := map_option (pw F) pb\<rparr>)"
  proof (cases "x < 0 \<or> x \<ge> plot_w s \<or> y < 0 \<or> y \<ge> plot_h s * 2")
    case True
    then have "setCell x y color (CHR 0x00) (s\<lparr>printBuf := pb\<rparr>) =
            Some (s\<lparr>printBuf := map_option (pw (\<lambda>i. xf_id)) pb\<rparr>)" for pb
      by (simp add: setCell_def)
    then show ?thesis by blast
  next
    case False
    let ?i = "nat (x + (y div 2) * plot_w s)"
    from a False obtain buf where buf: "printBuf s = Some buf" "?i < length buf"
      by (auto simp: setCell_def Let_def split: option.splits if_splits)
    obtain p where p: "setCell_block (invertedY s) y color = xf_apply p"
      using setCell_block_xf by blast
    have "setCell x y color (CHR 0x00) (s\<lparr>printBuf := pb\<rparr>) =
            Some (s\<lparr>printBuf := map_option (pw (\<lambda>j. if j = ?i then p else xf_id)) pb\<rparr>)"
      if "map_option length pb = map_option length (printBuf s)" for pb
    proof -
      from that buf obtain b2 where b2: "pb = Some b2" "length b2 = length buf"
        by (cases pb) auto
      with buf(2) have i: "?i < length b2" by simp
      show ?thesis
        using False i by (simp add: setCell_def Let_def b2 p pw_update)
    qed
    then show ?thesis by blast
  qed
qed

lemma blockop_Some: "blockop Some"
proof -
  have "Some (s\<lparr>printBuf := pb\<rparr>) = Some (s\<lparr>printBuf := map_option (pw (\<lambda>i. xf_id)) pb\<rparr>)"
    for s :: Plot and pb
    by simp
  then show ?thesis unfolding blockop_def by blast
qed

lemma blockop_bind:
  assumes "blockop f" "blockop g"
  shows "blockop (\<lambda>s. Option.bind (f s) g)"
  unfolding blockop_def
proof (intro allI impI)
  fix s s'
  assume "Option.bind (f s) g = Some s'"
  then obtain s1 where s1: "f s = Some s1" "g s1 = Some s'" by (auto split: bind_splits)
  from assms(1) s1(1) obtain F where
    F: "\<And>pb. map_option length pb = map_option length (printBuf s) \<Longrightarrow>
          f (s\<lparr>printBuf := pb\<rparr>) = Some (s\<lparr>printBuf := map_option (pw F) pb\<rparr>)"
    unfolding blockop_def by blast
  from F[of "printBuf s"] s1(1) have e1: "s1 = s\<lparr>printBuf := map_option (pw F) (printBuf s)\<rparr>"
    by simp
  from assms(2) s1(2) obtain G where
    G: "\<And>pb. map_option length pb = map_option length (printBuf s1) \<Longrightarrow>
          g (s1\<lparr>printBuf := pb\<rparr>) = Some (s1\<lparr>printBuf := map_option (pw G) pb\<rparr>)"
    unfolding blockop_def by blast
  have l1: "map_option length (printBuf s1) = map_option length (printBuf s)"
    by (cases "printBuf s") (simp_all add: e1)
  have "Option.bind (f (s\<lparr>printBuf := pb\<rparr>)) g =
          Some (s\<lparr>printBuf := map_option (pw (\<lambda>i. xf_then (F i) (G i))) pb\<rparr>)"
    if sh: "map_option length pb = map_option length (printBuf s)" for pb
  proof -
    have sh': "map_option length (map_option (pw F) pb) = map_option length (printBuf s1)"
      using sh l1 by (cases pb) simp_all
    have "g (s\<lparr>printBuf := map_option (pw F) pb\<rparr>) =
            g (s1\<lparr>printBuf := map_option (pw F) pb\<rparr>)"
      by (simp add: e1)
    also have "\<dots> = Some (s1\<lparr>printBuf := map_option (pw G) (map_option (pw F) pb)\<rparr>)"
      by (rule G[OF sh'])
    also have "\<dots> = Some (s\<lparr>printBuf := map_option (pw (\<lambda>i. xf_then (F i) (G i))) pb\<rparr>)"
      by (cases pb) (simp_all add: e1 pw_pw)
    finally show ?thesis by (simp add: F[OF sh])
  qed
  then show "\<exists>H. \<forall>pb. map_option length pb = map_option length (printBuf s) \<longrightarrow>
          Option.bind (f (s\<lparr>printBuf := pb\<rparr>)) g =
            Some (s\<lparr>printBuf := map_option (pw H) pb\<rparr>)"
    by blast
qed

lemma blockop_for_each:
  assumes "\<And>v. v \<in> set vs \<Longrightarrow> blockop (f v)"
  shows "blockop (for_each f vs)"
  using assms
proof (induction vs)
  case Nil
  have "for_each f [] = Some" by (rule ext) simp
  then show ?case by (simp add: blockop_Some)
next
  case (Cons v vs)
  have "for_each f (v # vs) = (\<lambda>s. Option.bind (f v s) (for_each f vs))"
    by (rule ext) simp
  moreover have "blockop (\<lambda>s. Option.bind (f v s) (for_each f vs))"
    by (rule blockop_bind) (simp_all add: Cons)
  ultimately show ?case by simp
qed

lemma mapX_printBuf [simp]: "mapX (s\<lparr>printBuf := pb\<rparr>) p = mapX s p"
  by (simp add: mapX_def)

lemma mapY_printBuf [simp]: "mapY (s\<lparr>printBuf := pb\<rparr>) p = mapY s p"
  by (simp add: mapY_def)

lemma blockop_printPoint: "blockop (printPoint p color (CHR 0x00))"
  unfolding blockop_def
proof (intro allI impI)
  fix s s'
  assume "printPoint p color (CHR 0x00) s = Some s'"
  then obtain x y where xy: "to_int (mapX s p) = Some x" "to_int (mapY s p) = Some y"
    "setCell x y color (CHR 0x00) s = Some s'"
    by (auto simp: printPoint_def split: bind_splits)
  from blockop_setCell[unfolded blockop_def, rule_format, OF xy(3)]
  show "\<exists>F. \<forall>pb. map_option length pb = map_option length (printBuf s) \<longrightarrow>
          printPoint p color (CHR 0x00) (s\<lparr>printBuf := pb\<rparr>) =
            Some (s\<lparr>printBuf := map_option (pw F) pb\<rparr>)"
    by (simp add: printPoint_def xy(1,2))
qed

lemma blockop_printLine: "blockop (printLine l color (CHR 0x00))"
  unfolding blockop_def
proof (intro allI impI)
  fix s s'
  assume "printLine l color (CHR 0x00) s = Some s'"
  then obtain x1 y1 x2 y2 cs where xy: "to_int (mapX s (ln_a l)) = Some x1"
    "to_int (mapY s (ln_a l)) = Some y1" "to_int (mapX s (ln_b l)) = Some x2"
    "to_int (mapY s (ln_b l)) = Some y2" "line_cells x1 y1 x2 y2 = Some cs"
    "for_each (\<lambda>c. setCell (fst c) (snd c) color (CHR 0x00)) cs s = Some s'"
    unfolding printLine_eq by (auto split: bind_splits)
  have "blockop (for_each (\<lambda>c. setCell (fst c) (snd c) color (CHR 0x00)) cs)"
    by (rule blockop_for_each) (rule blockop_setCell)
  from this[unfolded blockop_def, rule_format, OF xy(6)]
  show "\<exists>F. \<forall>pb. map_option length pb = map_option length (printBuf s) \<longrightarrow>
          printLine l color (CHR 0x00) (s\<lparr>printBuf := pb\<rparr>) =
            Some (s\<lparr>printBuf := map_option (pw F) pb\<rparr>)"
    by (simp add: printLine_eq xy(1-5))
qed

subsection \<open>Rendering twice\<close>

lemma window_of_fields [simp]:
  "lines (window_of s) = lines s" "points (window_of s) = points s"
  "printBuf (window_of s) = printBuf s"
  by (simp_all add: window_of_def)

lemma window_of_window_of [simp]:
  "window_of ((window_of s)\<lparr>printBuf := pb\<rparr>) = (window_of s)\<lparr>printBuf := pb\<rparr>"
  by (simp add: window_of_def)

lemma window_of_same_buf [simp]: "(window_of s)\<lparr>printBuf := printBuf s\<rparr> = window_of s"
  by (simp add: window_of_def)

lemma render_passes:
  "render s =
     Option.bind
       (for_each (\<lambda>c. for_each (\<lambda>l. printLine l (co (fst c)) (ch (fst c))) (snd c))
          (lines s) (window_of s))
       (for_each (\<lambda>c. for_each (\<lambda>p. printPoint p (co (fst c)) (ch (fst c))) (snd c))
          (points s))"
proof -
  let ?ls = "for_each (\<lambda>c. for_each (\<lambda>l. printLine l (co (fst c)) (ch (fst c))) (snd c))"
  let ?ps = "for_each (\<lambda>c. for_each (\<lambda>p. printPoint p (co (fst c)) (ch (fst c))) (snd c))"
  have r: "render s = Option.bind (?ls (lines s) (window_of s)) (\<lambda>s2. ?ps (points s2) s2)"
    by (simp add: render_def window_of_def Let_def)
  show ?thesis
  proof (cases "?ls (lines s) (window_of s)")
    case None
    then show ?thesis by (simp add: r)
  next
    case (Some s2)
    have "\<exists>pb. s2 = (window_of s)\<lparr>printBuf := pb\<rparr>"
      by (rule for_each_frame[OF _ Some]) (erule for_each_frame[rotated], erule printLine_frame)
    then have "points s2 = points s" by auto
    then show ?thesis by (simp add: r Some)
  qed
qed

text \<open>
  Claim C1, as stated, fails: \<open>render\<close> does not reset the cells, and the explicit-glyph
  branch of \<open>setCell\<close> reads the glyph and the colours that the first pass left. With
  a red block line through cell 0 and a blue point \<open>'x'\<close> in it, the first pass leaves
  the attribute \<open>0x14\<close> and the second \<open>0x11\<close>.
\<close>

theorem render_twice_counterexample:
  "first_cell (Option.bind demo_mixed render) = Some \<lparr>ch = CHR ''x'', co = 0x14\<rparr> \<and>
   first_cell (Option.bind (Option.bind demo_mixed render) render) =
     Some \<lparr>ch = CHR ''x'', co = 0x11\<rparr> \<and>
   Option.bind (Option.bind demo_mixed render) render \<noteq> Option.bind demo_mixed render"
  by code_simp

text \<open>
  Claim C1, amended. When every style key of the data maps has the sentinel glyph
  \<open>'\0'\<close> (block rendering) and \<open>render\<close> returns, a second \<open>render\<close> with the data and
  the window unchanged returns the same plot: the cells are exactly those left by the
  first pass. (\<open>render\<close> does not clear the grid: both passes write over the cells
  they find.)
\<close>

theorem render_idempotent_blocks:
  assumes "list_all (\<lambda>c. ch (fst c) = CHR 0x00) (lines s)"
    and "list_all (\<lambda>c. ch (fst c) = CHR 0x00) (points s)"
    and "render s = Some s'"
  shows "render s' = Some s'"
proof -
  let ?ls = "for_each (\<lambda>c. for_each (\<lambda>l. printLine l (co (fst c)) (ch (fst c))) (snd c)) (lines s)"
  let ?ps = "for_each (\<lambda>c. for_each (\<lambda>p. printPoint p (co (fst c)) (ch (fst c))) (snd c)) (points s)"
  let ?R = "\<lambda>t. Option.bind (?ls t) ?ps"
  have "blockop ?ls"
  proof (rule blockop_for_each)
    fix c assume "c \<in> set (lines s)"
    with assms(1) have "ch (fst c) = CHR 0x00" by (simp add: list_all_iff)
    then show "blockop (for_each (\<lambda>l. printLine l (co (fst c)) (ch (fst c))) (snd c))"
      by (simp add: blockop_for_each blockop_printLine)
  qed
  moreover have "blockop ?ps"
  proof (rule blockop_for_each)
    fix c assume "c \<in> set (points s)"
    with assms(2) have "ch (fst c) = CHR 0x00" by (simp add: list_all_iff)
    then show "blockop (for_each (\<lambda>p. printPoint p (co (fst c)) (ch (fst c))) (snd c))"
      by (simp add: blockop_for_each blockop_printPoint)
  qed
  ultimately have "blockop ?R" by (rule blockop_bind)
  moreover have r: "?R (window_of s) = Some s'"
    using assms(3) by (simp add: render_passes)
  ultimately obtain F where
    F: "\<And>pb. map_option length pb = map_option length (printBuf (window_of s)) \<Longrightarrow>
          ?R ((window_of s)\<lparr>printBuf := pb\<rparr>) =
            Some ((window_of s)\<lparr>printBuf := map_option (pw F) pb\<rparr>)"
    unfolding blockop_def by blast
  from F[of "printBuf s"] r
  have e: "s' = (window_of s)\<lparr>printBuf := map_option (pw F) (printBuf s)\<rparr>" by simp
  have sh: "map_option length (map_option (pw F) (printBuf s)) =
              map_option length (printBuf (window_of s))"
    by (cases "printBuf s") simp_all
  have "render s' = ?R s'"
    by (simp add: render_passes e)
  also have "\<dots> = Some ((window_of s)\<lparr>printBuf :=
                  map_option (pw F) (map_option (pw F) (printBuf s))\<rparr>)"
    unfolding e by (rule F[OF sh])
  also have "\<dots> = Some s'"
    by (cases "printBuf s") (simp_all add: e pw_idem)
  finally show ?thesis .
qed

theorem render_idempotent_blocks_witness:
  "render (the (Option.bind demo_blocks render)) = Some (the (Option.bind demo_blocks render))"
proof (rule render_idempotent_blocks)
  show "list_all (\<lambda>c. ch (fst c) = CHR 0x00) (lines (the demo_blocks))" by code_simp
  show "list_all (\<lambda>c. ch (fst c) = CHR 0x00) (points (the demo_blocks))" by code_simp
  show "render (the demo_blocks) = Some (the (Option.bind demo_blocks render))" by code_simp
qed

subsection \<open>Lines before points\<close>

lemma window_of_misc [simp]:
  "plot_w (window_of s) = plot_w s" "plot_h (window_of s) = plot_h s"
  "invertedY (window_of s) = invertedY s" "background (window_of s) = background s"
  by (simp_all add: window_of_def)

lemma for_each_invariant:
  "for_each f vs t = Some t' \<Longrightarrow> I t \<Longrightarrow>
   (\<And>v a a'. v \<in> set vs \<Longrightarrow> f v a = Some a' \<Longrightarrow> I a \<Longrightarrow> I a') \<Longrightarrow> I t'"
proof (induction vs arbitrary: t)
  case Nil
  then show ?case by simp
next
  case (Cons v vs)
  from Cons.prems(1) obtain t1 where t1: "f v t = Some t1" "for_each f vs t1 = Some t'"
    by (auto split: bind_splits)
  have i1: "I t1" by (rule Cons.prems(3)[OF _ t1(1) Cons.prems(2)]) simp
  have step: "\<And>u a a'. u \<in> set vs \<Longrightarrow> f u a = Some a' \<Longrightarrow> I a \<Longrightarrow> I a'"
    using Cons.prems(3) by (meson list.set_intros(2))
  from Cons.IH[OF t1(2) i1 step] show ?case .
qed

text \<open>A glyph other than \<open>BLOCK\<close> that no write carries does not appear in a cell.\<close>

lemma setCell_glyph_absent:
  assumes "g \<noteq> BLOCK" "character \<noteq> g" "setCell x y color character s = Some s'"
    "glyph_absent g j s"
  shows "glyph_absent g j s'"
proof (cases "x < 0 \<or> x \<ge> plot_w s \<or> y < 0 \<or> y \<ge> plot_h s * 2")
  case True
  with assms(3,4) show ?thesis by (simp add: setCell_def)
next
  case False
  let ?i = "nat (x + (y div 2) * plot_w s)"
  from assms(3) False obtain buf where buf: "printBuf s = Some buf" "?i < length buf"
    by (auto simp: setCell_def Let_def split: option.splits if_splits)
  have s': "s' = s\<lparr>printBuf := Some (buf[?i :=
                   (if character = CHR 0x00
                    then setCell_block (invertedY s) y color (buf ! ?i)
                    else setCell_char (background s) color character (buf ! ?i))])\<rparr>"
    using assms(3) False buf by (simp add: setCell_def Let_def)
  from assms(4) buf have a: "ch (buf ! j) \<noteq> g" by (simp add: glyph_absent_def)
  show ?thesis
  proof (cases "j = ?i")
    case True
    with a assms(1,2) buf(2) show ?thesis
      by (simp add: s' glyph_absent_def setCell_block_eq setCell_char_eq)
  next
    case False
    with a show ?thesis by (simp add: s' glyph_absent_def)
  qed
qed

lemma printLine_glyph_absent:
  assumes "g \<noteq> BLOCK" "character \<noteq> g" "printLine l color character s = Some s'"
    "glyph_absent g j s"
  shows "glyph_absent g j s'"
proof -
  from assms(3) obtain cs where
    "for_each (\<lambda>c. setCell (fst c) (snd c) color character) cs s = Some s'"
    unfolding printLine_eq by (auto split: bind_splits)
  then show ?thesis
    by (rule for_each_invariant) (auto intro: setCell_glyph_absent[OF assms(1,2)] assms(4))
qed

lemma lines_pass_glyph_absent:
  assumes "g \<noteq> BLOCK" "list_all (\<lambda>c. ch (fst c) \<noteq> g) (lines s)"
    "lines_pass s = Some mid" "glyph_absent g j s"
  shows "glyph_absent g j mid"
proof -
  have w: "glyph_absent g j (window_of s)"
    using assms(4) by (simp add: glyph_absent_def)
  have step: "glyph_absent g j t'"
    if "c \<in> set (lines s)" "for_each (\<lambda>l. printLine l (co (fst c)) (ch (fst c))) (snd c) t = Some t'"
      "glyph_absent g j t" for c t t'
  proof -
    from that(1) assms(2) have "ch (fst c) \<noteq> g" by (simp add: list_all_iff)
    with that(2,3) show ?thesis
      by (elim for_each_invariant) (auto intro: printLine_glyph_absent[OF assms(1)])
  qed
  from assms(3) show ?thesis
    unfolding lines_pass_def
    by (rule for_each_invariant) (auto intro: step w)
qed

lemma for_each_append:
  "for_each f (xs @ ys) t = Option.bind (for_each f xs t) (for_each f ys)"
proof (induction xs arbitrary: t)
  case Nil
  show ?case by simp
next
  case (Cons v xs)
  show ?case by (cases "f v t") (simp_all add: Cons.IH)
qed

lemma for_each_append_Cons:
  "for_each f (xs @ v # ys) t =
     Option.bind (for_each f xs t) (\<lambda>t. Option.bind (f v t) (for_each f ys))"
  by (cases "for_each f xs t") (simp_all add: for_each_append)

lemma printPoint_glyph_absent:
  assumes "g \<noteq> BLOCK" "character \<noteq> g" "printPoint q color character s = Some s'"
    "glyph_absent g j s"
  shows "glyph_absent g j s'"
proof -
  from assms(3) obtain x y where "setCell x y color character s = Some s'"
    by (auto simp: printPoint_def split: bind_splits)
  from setCell_glyph_absent[OF assms(1,2) this assms(4)] show ?thesis .
qed

lemma points_pass_glyph_absent:
  assumes "g \<noteq> BLOCK" "list_all (\<lambda>c. ch (fst c) \<noteq> g) ps"
    "points_pass ps t = Some t'" "glyph_absent g j t"
  shows "glyph_absent g j t'"
proof -
  have step: "glyph_absent g j b"
    if "c \<in> set ps" "for_each (\<lambda>q. printPoint q (co (fst c)) (ch (fst c))) (snd c) a = Some b"
      "glyph_absent g j a" for c a b
  proof -
    from that(1) assms(2) have "ch (fst c) \<noteq> g" by (simp add: list_all_iff)
    with that(2,3) show ?thesis
      by (elim for_each_invariant) (auto intro: printPoint_glyph_absent[OF assms(1)])
  qed
  from assms(3) show ?thesis
    unfolding points_pass_def
    by (rule for_each_invariant) (auto intro: step assms(4))
qed

text \<open>The writes of the points pass change the buffer only.\<close>

lemma same_window_iff:
  "same_window s t \<longleftrightarrow> (\<exists>pb. t = (window_of s)\<lparr>printBuf := pb\<rparr>)"
proof
  assume "same_window s t"
  then have "t = (window_of s)\<lparr>printBuf := printBuf t\<rparr>" by (simp only: same_window_def)
  then show "\<exists>pb. t = (window_of s)\<lparr>printBuf := pb\<rparr>" by (rule exI)
next
  assume "\<exists>pb. t = (window_of s)\<lparr>printBuf := pb\<rparr>"
  then obtain pb where e: "t = (window_of s)\<lparr>printBuf := pb\<rparr>" by blast
  show "same_window s t" unfolding same_window_def e by simp
qed

lemma same_window_step:
  assumes "same_window s t" "\<exists>pb. t' = t\<lparr>printBuf := pb\<rparr>"
  shows "same_window s t'"
  using assms by (auto simp: same_window_iff)

lemma same_window_fields:
  assumes "same_window s t"
  shows "mapX t q = mapX (window_of s) q" "mapY t q = mapY (window_of s) q"
    "in_grid t x y = in_grid s x y" "cell_index t x y = cell_index s x y"
    "invertedY t = invertedY s" "background t = background s"
  using assms by (auto simp: same_window_iff in_grid_def cell_index_def)

lemma lines_pass_window:
  assumes "lines_pass s = Some mid"
  shows "same_window s mid"
proof -
  have "\<exists>pb. mid = (window_of s)\<lparr>printBuf := pb\<rparr>"
    using assms unfolding lines_pass_def
    by (rule for_each_frame[rotated]) (erule for_each_frame[rotated], erule printLine_frame)
  then show ?thesis by (simp only: same_window_iff)
qed

lemma points_frame:
  assumes "for_each (\<lambda>q. printPoint q color g) qs t = Some t'"
  shows "\<exists>pb. t' = t\<lparr>printBuf := pb\<rparr>"
  using assms by (rule for_each_frame[rotated]) (erule printPoint_frame)

lemma points_pass_frame:
  assumes "points_pass ps t = Some t'"
  shows "\<exists>pb. t' = t\<lparr>printBuf := pb\<rparr>"
  using assms unfolding points_pass_def
  by (rule for_each_frame[rotated]) (erule points_frame)

text \<open>A write inside the grid replaces one cell; a write elsewhere leaves a cell alone.\<close>

lemma setCell_written:
  assumes "setCell x y color character t = Some t'" "in_grid t x y"
  shows "\<exists>buf. printBuf t = Some buf \<and> cell_index t x y < length buf \<and>
           t' = t\<lparr>printBuf := Some (buf[cell_index t x y :=
                   (if character = CHR 0x00
                    then setCell_block (invertedY t) y color (buf ! cell_index t x y)
                    else setCell_char (background t) color character
                           (buf ! cell_index t x y))])\<rparr>"
  using assms
  by (auto simp: setCell_def in_grid_def cell_index_def Let_def split: option.splits if_splits)

lemma setCell_miss:
  assumes "setCell x y color character t = Some t'"
    "\<not> (in_grid t x y \<and> cell_index t x y = i)"
  shows "cell_at i t' = cell_at i t"
proof (cases "in_grid t x y")
  case False
  with assms(1) show ?thesis by (simp add: setCell_outside)
next
  case True
  with assms(2) have ne: "cell_index t x y \<noteq> i" by simp
  from setCell_written[OF assms(1) True] obtain buf v where
    "printBuf t = Some buf" "t' = t\<lparr>printBuf := Some (buf[cell_index t x y := v])\<rparr>"
    by blast
  with ne show ?thesis by (simp add: cell_at_def)
qed

lemma printPoint_miss:
  assumes "same_window s t" "printPoint q color g t = Some t'" "\<not> hits s i q"
  shows "cell_at i t' = cell_at i t"
proof -
  from assms(2) obtain x y where xy: "to_int (mapX t q) = Some x" "to_int (mapY t q) = Some y"
    and sc: "setCell x y color g t = Some t'"
    by (auto simp: printPoint_def split: bind_splits)
  from xy have "to_int (mapX (window_of s) q) = Some x" "to_int (mapY (window_of s) q) = Some y"
    by (simp_all add: same_window_fields[OF assms(1)])
  with assms(3) have "\<not> (in_grid s x y \<and> cell_index s x y = i)" by (simp add: hits_def)
  then have "\<not> (in_grid t x y \<and> cell_index t x y = i)"
    by (simp add: same_window_fields[OF assms(1)])
  from setCell_miss[OF sc this] show ?thesis .
qed

lemma points_miss:
  assumes "for_each (\<lambda>q. printPoint q color g) qs t = Some t'" "same_window s t"
    "list_all (\<lambda>q. \<not> hits s i q) qs"
  shows "same_window s t' \<and> cell_at i t' = cell_at i t"
proof (rule for_each_invariant[where I = "\<lambda>a. same_window s a \<and> cell_at i a = cell_at i t",
      OF assms(1)])
  show "same_window s t \<and> cell_at i t = cell_at i t" using assms(2) by simp
next
  fix v a a'
  assume v: "v \<in> set qs" and w: "printPoint v color g a = Some a'"
    and I: "same_window s a \<and> cell_at i a = cell_at i t"
  from v assms(3) have m: "\<not> hits s i v" by (simp add: list_all_iff)
  from I have sw: "same_window s a" and c: "cell_at i a = cell_at i t" by simp_all
  have "same_window s a'" by (rule same_window_step[OF sw printPoint_frame[OF w]])
  moreover have "cell_at i a' = cell_at i t"
    using printPoint_miss[OF sw w m] c by simp
  ultimately show "same_window s a' \<and> cell_at i a' = cell_at i t" by simp
qed

lemma points_pass_miss:
  assumes "points_pass ps t = Some t'" "same_window s t"
    "list_all (\<lambda>c. list_all (\<lambda>q. \<not> hits s i q) (snd c)) ps"
  shows "same_window s t' \<and> cell_at i t' = cell_at i t"
proof (rule for_each_invariant[where I = "\<lambda>a. same_window s a \<and> cell_at i a = cell_at i t",
      OF assms(1)[unfolded points_pass_def]])
  show "same_window s t \<and> cell_at i t = cell_at i t" using assms(2) by simp
next
  fix v a a'
  assume v: "v \<in> set ps"
    and w: "for_each (\<lambda>q. printPoint q (co (fst v)) (ch (fst v))) (snd v) a = Some a'"
    and I: "same_window s a \<and> cell_at i a = cell_at i t"
  from v assms(3) have m: "list_all (\<lambda>q. \<not> hits s i q) (snd v)" by (simp add: list_all_iff)
  from I have sw: "same_window s a" and c: "cell_at i a = cell_at i t" by simp_all
  from points_miss[OF w sw m] c
  show "same_window s a' \<and> cell_at i a' = cell_at i t" by simp
qed

text \<open>
  Writes of one style with an explicit glyph keep a cell that shows the glyph in the
  colour of the style.
\<close>

lemma glyph_absent_coloured: "glyph_absent g j s \<Longrightarrow> glyph_coloured g k j s"
  by (simp add: glyph_absent_def glyph_coloured_def split: option.splits)

lemma setCell_glyph_coloured:
  assumes "character \<noteq> CHR 0x00" "color < 16" "setCell x y color character t = Some t'"
    "glyph_coloured character color j t"
  shows "glyph_coloured character color j t'"
proof (cases "in_grid t x y")
  case False
  with assms(3,4) show ?thesis by (simp add: setCell_outside)
next
  case True
  let ?i = "cell_index t x y"
  from setCell_written[OF assms(3) True] assms(1) obtain buf where
    buf: "printBuf t = Some buf" "?i < length buf"
    and t': "t' = t\<lparr>printBuf := Some (buf[?i :=
               setCell_char (background t) color character (buf ! ?i)])\<rparr>"
    by auto
  from assms(4) buf have a: "ch (buf ! j) = character \<longrightarrow> lower_nibble (co (buf ! j)) = color"
    by (simp add: glyph_coloured_def)
  show ?thesis
  proof (cases "j = ?i")
    case True
    with a assms(2) buf(2) show ?thesis
      by (simp add: t' glyph_coloured_def setCell_char_eq nibble_writes)
  next
    case False
    with a show ?thesis by (simp add: t' glyph_coloured_def)
  qed
qed

lemma points_glyph_coloured:
  assumes "g \<noteq> CHR 0x00" "k < 16" "for_each (\<lambda>q. printPoint q k g) qs t = Some t'"
    "glyph_coloured g k j t"
  shows "glyph_coloured g k j t'"
proof (rule for_each_invariant[where I = "glyph_coloured g k j", OF assms(3) assms(4)])
  fix v a a'
  assume w: "printPoint v k g a = Some a'" and I: "glyph_coloured g k j a"
  from w obtain x y where "setCell x y k g a = Some a'"
    by (auto simp: printPoint_def split: bind_splits)
  from setCell_glyph_coloured[OF assms(1,2) this I] show "glyph_coloured g k j a'" .
qed

text \<open>
  Claim C7, as stated, fails: \<open>render\<close> does rasterize every line before any point,
  but the last write does not always set the lower nibble. A point drawn with the
  character the cell already shows leaves the attribute alone (the guard
  \<open>c.ch != character\<close> in \<open>setCell\<close>): a red line \<open>'x'\<close> and a blue point \<open>'x'\<close> on
  the same cell leave the lower nibble red.
\<close>

theorem point_over_line_counterexample:
  "first_cell (Option.bind demo_same_glyph render) = Some \<lparr>ch = CHR ''x'', co = 0x01\<rparr> \<and>
   lower_nibble 0x01 = RED \<and> RED \<noteq> BLUE"
  by code_simp

text \<open>
  Claim C7, amended. \<open>render\<close> rasterizes all lines of every style, then all points
  of every style, for every plot. Take any point \<open>p\<close> of the data, of a palette
  colour, whose mapped cell is in the grid and is written by no point that the pass
  rasterizes after \<open>p\<close> (the points \<open>rs\<close> that follow it in its style and the styles
  \<open>ts\<close> that follow its style). Then the cell after \<open>render\<close> is the cell as the
  \<open>setCell\<close> of \<open>p\<close> left it, on the plot \<open>before\<close> that the lines and the earlier
  points produced, and the colour of \<open>p\<close> is the final value of the nibble that write
  selects: the nibble chosen by the parity of the sub-row for the sentinel glyph, the
  lower nibble for an explicit glyph. The exception is an explicit glyph that the cell
  already shows when \<open>p\<close> is written: then the attribute stays as it was. It does not
  change the lower nibble when no line style and no earlier point style has the glyph
  of \<open>p\<close> and the cell did not show it before \<open>render\<close>. When \<open>p\<close> is the last point
  of the pass, the plot after \<open>render\<close> is the plot \<open>after\<close> its \<open>setCell\<close>.
\<close>

theorem points_after_lines:
  "render s = Option.bind (lines_pass s) (points_pass (points s)) \<and>
   (points s = ps @ (kp, qs @ p # rs) # ts \<and> render s = Some s' \<and>
    to_int (mapX (window_of s) p) = Some x \<and> to_int (mapY (window_of s) p) = Some y \<and>
    in_grid s x y \<and> co kp < 16 \<and>
    list_all (\<lambda>q. \<not> hits s (cell_index s x y) q) rs \<and>
    list_all (\<lambda>c. list_all (\<lambda>q. \<not> hits s (cell_index s x y) q) (snd c)) ts \<longrightarrow>
    (\<exists>mid before after buf buf'.
       lines_pass s = Some mid \<and>
       Option.bind (points_pass ps mid) (for_each (\<lambda>q. printPoint q (co kp) (ch kp)) qs) =
         Some before \<and>
       setCell x y (co kp) (ch kp) before = Some after \<and>
       Option.bind (for_each (\<lambda>q. printPoint q (co kp) (ch kp)) rs after) (points_pass ts) =
         Some s' \<and>
       printBuf before = Some buf \<and> printBuf s' = Some buf' \<and>
       cell_at (cell_index s x y) after = Some (buf' ! cell_index s x y) \<and>
       (ch kp = CHR 0x00 \<longrightarrow>
          (if (if invertedY s then y + 1 else y) mod 2 \<noteq> 0
           then upper_nibble (co (buf' ! cell_index s x y)) = co kp
           else lower_nibble (co (buf' ! cell_index s x y)) = co kp)) \<and>
       (ch kp \<noteq> CHR 0x00 \<and>
        (ch (buf ! cell_index s x y) = EMPTY \<or> ch (buf ! cell_index s x y) = BLOCK \<or>
         ch (buf ! cell_index s x y) \<noteq> ch kp) \<longrightarrow>
          lower_nibble (co (buf' ! cell_index s x y)) = co kp \<and>
          ch (buf' ! cell_index s x y) = ch kp) \<and>
       (ch kp \<noteq> CHR 0x00 \<and> ch (buf ! cell_index s x y) \<noteq> EMPTY \<and>
        ch (buf ! cell_index s x y) \<noteq> BLOCK \<and> ch (buf ! cell_index s x y) = ch kp \<longrightarrow>
          co (buf' ! cell_index s x y) = co (buf ! cell_index s x y)) \<and>
       (ch kp \<noteq> CHR 0x00 \<and> list_all (\<lambda>c. ch (fst c) \<noteq> ch kp) (lines s) \<and>
        list_all (\<lambda>c. ch (fst c) \<noteq> ch kp) ps \<and>
        glyph_absent (ch kp) (cell_index s x y) s \<longrightarrow>
          lower_nibble (co (buf' ! cell_index s x y)) = co kp \<and>
          ch (buf' ! cell_index s x y) = ch kp)))"
proof (rule conjI)
  show "render s = Option.bind (lines_pass s) (points_pass (points s))"
    unfolding lines_pass_def points_pass_def by (rule render_passes)
next
  let ?i = "cell_index s x y"
  let ?pp = "\<lambda>q. printPoint q (co kp) (ch kp)"
  show "points s = ps @ (kp, qs @ p # rs) # ts \<and> render s = Some s' \<and>
    to_int (mapX (window_of s) p) = Some x \<and> to_int (mapY (window_of s) p) = Some y \<and>
    in_grid s x y \<and> co kp < 16 \<and>
    list_all (\<lambda>q. \<not> hits s ?i q) rs \<and>
    list_all (\<lambda>c. list_all (\<lambda>q. \<not> hits s ?i q) (snd c)) ts \<longrightarrow>
    (\<exists>mid before after buf buf'.
       lines_pass s = Some mid \<and>
       Option.bind (points_pass ps mid) (for_each ?pp qs) = Some before \<and>
       setCell x y (co kp) (ch kp) before = Some after \<and>
       Option.bind (for_each ?pp rs after) (points_pass ts) = Some s' \<and>
       printBuf before = Some buf \<and> printBuf s' = Some buf' \<and>
       cell_at ?i after = Some (buf' ! ?i) \<and>
       (ch kp = CHR 0x00 \<longrightarrow>
          (if (if invertedY s then y + 1 else y) mod 2 \<noteq> 0
           then upper_nibble (co (buf' ! ?i)) = co kp
           else lower_nibble (co (buf' ! ?i)) = co kp)) \<and>
       (ch kp \<noteq> CHR 0x00 \<and>
        (ch (buf ! ?i) = EMPTY \<or> ch (buf ! ?i) = BLOCK \<or> ch (buf ! ?i) \<noteq> ch kp) \<longrightarrow>
          lower_nibble (co (buf' ! ?i)) = co kp \<and> ch (buf' ! ?i) = ch kp) \<and>
       (ch kp \<noteq> CHR 0x00 \<and> ch (buf ! ?i) \<noteq> EMPTY \<and>
        ch (buf ! ?i) \<noteq> BLOCK \<and> ch (buf ! ?i) = ch kp \<longrightarrow>
          co (buf' ! ?i) = co (buf ! ?i)) \<and>
       (ch kp \<noteq> CHR 0x00 \<and> list_all (\<lambda>c. ch (fst c) \<noteq> ch kp) (lines s) \<and>
        list_all (\<lambda>c. ch (fst c) \<noteq> ch kp) ps \<and> glyph_absent (ch kp) ?i s \<longrightarrow>
          lower_nibble (co (buf' ! ?i)) = co kp \<and> ch (buf' ! ?i) = ch kp))"
  proof (intro impI, elim conjE)
    assume pts: "points s = ps @ (kp, qs @ p # rs) # ts" and r: "render s = Some s'"
      and mx: "to_int (mapX (window_of s) p) = Some x"
      and my: "to_int (mapY (window_of s) p) = Some y"
      and ig: "in_grid s x y" and k16: "co kp < 16"
      and nrs: "list_all (\<lambda>q. \<not> hits s ?i q) rs"
      and nps2: "list_all (\<lambda>c. list_all (\<lambda>q. \<not> hits s ?i q) (snd c)) ts"
    have rp: "render s = Option.bind (lines_pass s) (points_pass (points s))"
      unfolding lines_pass_def points_pass_def by (rule render_passes)
    with r obtain mid where mid: "lines_pass s = Some mid"
      and pp: "points_pass (points s) mid = Some s'"
      by (auto split: bind_splits)
    have "points_pass (points s) mid =
            Option.bind (points_pass ps mid) (\<lambda>t. Option.bind (for_each ?pp (qs @ p # rs) t)
              (points_pass ts))"
      unfolding pts points_pass_def by (simp add: for_each_append_Cons)
    with pp obtain t1 t3 where t1: "points_pass ps mid = Some t1"
      and t3: "for_each ?pp (qs @ p # rs) t1 = Some t3"
      and fin: "points_pass ts t3 = Some s'"
      by (auto split: bind_splits)
    from t3 obtain before where bf: "for_each ?pp qs t1 = Some before"
      and t3': "for_each ?pp (p # rs) before = Some t3"
      unfolding for_each_append by (auto split: bind_splits)
    from t3' obtain after where af: "printPoint p (co kp) (ch kp) before = Some after"
      and t4: "for_each ?pp rs after = Some t3"
      by (auto split: bind_splits)
    have w_mid: "same_window s mid" by (rule lines_pass_window[OF mid])
    have w_t1: "same_window s t1"
      by (rule same_window_step[OF w_mid points_pass_frame[OF t1]])
    have w_bf: "same_window s before"
      by (rule same_window_step[OF w_t1 points_frame[OF bf]])
    have w_af: "same_window s after"
      by (rule same_window_step[OF w_bf printPoint_frame[OF af]])
    have sc: "setCell x y (co kp) (ch kp) before = Some after"
      using af by (simp add: printPoint_def same_window_fields[OF w_bf] mx my)
    have g: "in_grid before x y" using ig by (simp add: same_window_fields[OF w_bf])
    have ci: "cell_index before x y = ?i" by (simp add: same_window_fields[OF w_bf])
    let ?new = "\<lambda>buf. (if ch kp = CHR 0x00
                    then setCell_block (invertedY s) y (co kp) (buf ! ?i)
                    else setCell_char (background s) (co kp) (ch kp) (buf ! ?i))"
    from setCell_written[OF sc g] obtain buf where buf: "printBuf before = Some buf"
      "?i < length buf"
      and after: "after = before\<lparr>printBuf := Some (buf[?i := ?new buf])\<rparr>"
      unfolding ci same_window_fields[OF w_bf] by blast
    have ca: "cell_at ?i after = Some (?new buf)"
      using buf(2) by (simp add: after cell_at_def)
    from points_miss[OF t4 w_af nrs] have w_t3: "same_window s t3"
      and c3: "cell_at ?i t3 = cell_at ?i after" by simp_all
    from points_pass_miss[OF fin w_t3 nps2] have cf: "cell_at ?i s' = cell_at ?i t3" by simp
    from cf c3 ca have "cell_at ?i s' = Some (?new buf)" by simp
    then obtain buf' where b': "printBuf s' = Some buf'" and n: "buf' ! ?i = ?new buf"
      by (auto simp: cell_at_def)
    have e: "EMPTY \<noteq> BLOCK" by (simp add: EMPTY_def BLOCK_def)
    have c1: "Option.bind (points_pass ps mid) (for_each ?pp qs) = Some before"
      by (simp add: t1 bf)
    have c2: "Option.bind (for_each ?pp rs after) (points_pass ts) = Some s'"
      by (simp add: t4 fin)
    have c3': "cell_at ?i after = Some (buf' ! ?i)" by (simp add: ca n)
    have A: "ch kp = CHR 0x00 \<longrightarrow>
               (if (if invertedY s then y + 1 else y) mod 2 \<noteq> 0
                then upper_nibble (co (buf' ! ?i)) = co kp
                else lower_nibble (co (buf' ! ?i)) = co kp)"
      unfolding n using k16 by (simp add: setCell_block_eq nibble_writes)
    have B: "ch kp \<noteq> CHR 0x00 \<and>
             (ch (buf ! ?i) = EMPTY \<or> ch (buf ! ?i) = BLOCK \<or> ch (buf ! ?i) \<noteq> ch kp) \<longrightarrow>
               lower_nibble (co (buf' ! ?i)) = co kp \<and> ch (buf' ! ?i) = ch kp"
      unfolding n using k16 e by (auto simp: setCell_char_eq nibble_writes)
    have C: "ch kp \<noteq> CHR 0x00 \<and> ch (buf ! ?i) \<noteq> EMPTY \<and>
             ch (buf ! ?i) \<noteq> BLOCK \<and> ch (buf ! ?i) = ch kp \<longrightarrow>
               co (buf' ! ?i) = co (buf ! ?i)"
      unfolding n by (auto simp: setCell_char_eq)
    have D: "ch kp \<noteq> CHR 0x00 \<and> list_all (\<lambda>c. ch (fst c) \<noteq> ch kp) (lines s) \<and>
             list_all (\<lambda>c. ch (fst c) \<noteq> ch kp) ps \<and> glyph_absent (ch kp) ?i s \<longrightarrow>
               lower_nibble (co (buf' ! ?i)) = co kp \<and> ch (buf' ! ?i) = ch kp"
    proof (intro impI, elim conjE)
      assume k: "ch kp \<noteq> CHR 0x00" and l: "list_all (\<lambda>c. ch (fst c) \<noteq> ch kp) (lines s)"
        and l2: "list_all (\<lambda>c. ch (fst c) \<noteq> ch kp) ps"
        and a: "glyph_absent (ch kp) ?i s"
      from k have nb: "ch kp \<noteq> BLOCK" by (simp add: BLOCK_def)
      have "glyph_absent (ch kp) ?i mid" by (rule lines_pass_glyph_absent[OF nb l mid a])
      then have "glyph_absent (ch kp) ?i t1" by (rule points_pass_glyph_absent[OF nb l2 t1])
      then have "glyph_coloured (ch kp) (co kp) ?i t1" by (rule glyph_absent_coloured)
      then have "glyph_coloured (ch kp) (co kp) ?i before"
        by (rule points_glyph_coloured[OF k k16 bf])
      with buf(1) have J: "ch (buf ! ?i) = ch kp \<longrightarrow> lower_nibble (co (buf ! ?i)) = co kp"
        by (simp add: glyph_coloured_def)
      show "lower_nibble (co (buf' ! ?i)) = co kp \<and> ch (buf' ! ?i) = ch kp"
      proof (cases "ch (buf ! ?i) = EMPTY \<or> ch (buf ! ?i) = BLOCK \<or> ch (buf ! ?i) \<noteq> ch kp")
        case True
        with B k show ?thesis by blast
      next
        case False
        with C k have "co (buf' ! ?i) = co (buf ! ?i)" by blast
        moreover from False J have "lower_nibble (co (buf ! ?i)) = co kp" by blast
        moreover have "ch (buf' ! ?i) = ch kp" unfolding n using k by (simp add: setCell_char_eq)
        ultimately show ?thesis by simp
      qed
    qed
    from mid c1 sc c2 buf(1) b' c3' A B C D
    show "\<exists>mid before after buf buf'.
       lines_pass s = Some mid \<and>
       Option.bind (points_pass ps mid) (for_each ?pp qs) = Some before \<and>
       setCell x y (co kp) (ch kp) before = Some after \<and>
       Option.bind (for_each ?pp rs after) (points_pass ts) = Some s' \<and>
       printBuf before = Some buf \<and> printBuf s' = Some buf' \<and>
       cell_at ?i after = Some (buf' ! ?i) \<and>
       (ch kp = CHR 0x00 \<longrightarrow>
          (if (if invertedY s then y + 1 else y) mod 2 \<noteq> 0
           then upper_nibble (co (buf' ! ?i)) = co kp
           else lower_nibble (co (buf' ! ?i)) = co kp)) \<and>
       (ch kp \<noteq> CHR 0x00 \<and>
        (ch (buf ! ?i) = EMPTY \<or> ch (buf ! ?i) = BLOCK \<or> ch (buf ! ?i) \<noteq> ch kp) \<longrightarrow>
          lower_nibble (co (buf' ! ?i)) = co kp \<and> ch (buf' ! ?i) = ch kp) \<and>
       (ch kp \<noteq> CHR 0x00 \<and> ch (buf ! ?i) \<noteq> EMPTY \<and>
        ch (buf ! ?i) \<noteq> BLOCK \<and> ch (buf ! ?i) = ch kp \<longrightarrow>
          co (buf' ! ?i) = co (buf ! ?i)) \<and>
       (ch kp \<noteq> CHR 0x00 \<and> list_all (\<lambda>c. ch (fst c) \<noteq> ch kp) (lines s) \<and>
        list_all (\<lambda>c. ch (fst c) \<noteq> ch kp) ps \<and> glyph_absent (ch kp) ?i s \<longrightarrow>
          lower_nibble (co (buf' ! ?i)) = co kp \<and> ch (buf' ! ?i) = ch kp)"
      by (intro exI conjI)
  qed
qed

theorem points_after_lines_witness:
  "lower_nibble (co (the (printBuf (the (render (the demo_markers)))) ! 0)) = BLUE \<and>
   lower_nibble (co (the (printBuf (the (render (the demo_markers)))) ! 6)) = BLUE"
proof -
  let ?s = "the demo_markers"
  let ?k = "\<lparr>ch = CHR ''x'', co = BLUE\<rparr>"
  let ?p1 = "\<lparr>pt_x = Fin 0, pt_y = Fin 0\<rparr>"
  let ?p2 = "\<lparr>pt_x = Fin 2, pt_y = Fin 2\<rparr>"
  have pts: "points ?s = [(?k, [?p1, ?p2])]" by code_simp
  have r: "render ?s = Some (the (render ?s))" by code_simp
  have k16: "co ?k < 16" by (simp add: BLUE_def)
  have i1: "cell_index ?s 0 0 = 0" and i2: "cell_index ?s 2 2 = 6" by code_simp+
  have a1: "points ?s = [] @ (?k, [] @ ?p1 # [?p2]) # []" by (simp add: pts)
  have m1: "to_int (mapX (window_of ?s) ?p1) = Some 0" "to_int (mapY (window_of ?s) ?p1) = Some 0"
    by code_simp+
  have g1: "in_grid ?s 0 0" by code_simp
  have n1: "list_all (\<lambda>q. \<not> hits ?s (cell_index ?s 0 0) q) [?p2]" by code_simp
  have e1: "list_all (\<lambda>c. list_all (\<lambda>q. \<not> hits ?s (cell_index ?s 0 0) q) (snd c)) []" by simp
  have d1: "ch ?k \<noteq> CHR 0x00 \<and> list_all (\<lambda>c. ch (fst c) \<noteq> ch ?k) (lines ?s) \<and>
      list_all (\<lambda>c. ch (fst c) \<noteq> ch ?k) [] \<and> glyph_absent (ch ?k) (cell_index ?s 0 0) ?s"
    by code_simp
  have h1: "points ?s = [] @ (?k, [] @ ?p1 # [?p2]) # [] \<and> render ?s = Some (the (render ?s)) \<and>
    to_int (mapX (window_of ?s) ?p1) = Some 0 \<and> to_int (mapY (window_of ?s) ?p1) = Some 0 \<and>
    in_grid ?s 0 0 \<and> co ?k < 16 \<and>
    list_all (\<lambda>q. \<not> hits ?s (cell_index ?s 0 0) q) [?p2] \<and>
    list_all (\<lambda>c. list_all (\<lambda>q. \<not> hits ?s (cell_index ?s 0 0) q) (snd c)) []"
    using a1 r m1 g1 k16 n1 e1 by (intro conjI)
  from points_after_lines[where s = ?s and ps = "[]" and kp = ?k and qs = "[]" and p = ?p1
      and rs = "[?p2]" and ts = "[]" and s' = "the (render ?s)" and x = 0 and y = 0,
      THEN conjunct2, rule_format, OF h1] d1
  obtain buf1 where b1: "printBuf (the (render ?s)) = Some buf1"
    "lower_nibble (co (buf1 ! cell_index ?s 0 0)) = co ?k"
    by blast
  have a2: "points ?s = [] @ (?k, [?p1] @ ?p2 # []) # []" by (simp add: pts)
  have m2: "to_int (mapX (window_of ?s) ?p2) = Some 2" "to_int (mapY (window_of ?s) ?p2) = Some 2"
    by code_simp+
  have g2: "in_grid ?s 2 2" by code_simp
  have n2: "list_all (\<lambda>q. \<not> hits ?s (cell_index ?s 2 2) q) []" by simp
  have e2: "list_all (\<lambda>c. list_all (\<lambda>q. \<not> hits ?s (cell_index ?s 2 2) q) (snd c)) []" by simp
  have d2: "ch ?k \<noteq> CHR 0x00 \<and> list_all (\<lambda>c. ch (fst c) \<noteq> ch ?k) (lines ?s) \<and>
      list_all (\<lambda>c. ch (fst c) \<noteq> ch ?k) [] \<and> glyph_absent (ch ?k) (cell_index ?s 2 2) ?s"
    by code_simp
  have h2: "points ?s = [] @ (?k, [?p1] @ ?p2 # []) # [] \<and> render ?s = Some (the (render ?s)) \<and>
    to_int (mapX (window_of ?s) ?p2) = Some 2 \<and> to_int (mapY (window_of ?s) ?p2) = Some 2 \<and>
    in_grid ?s 2 2 \<and> co ?k < 16 \<and>
    list_all (\<lambda>q. \<not> hits ?s (cell_index ?s 2 2) q) [] \<and>
    list_all (\<lambda>c. list_all (\<lambda>q. \<not> hits ?s (cell_index ?s 2 2) q) (snd c)) []"
    using a2 r m2 g2 k16 n2 e2 by (intro conjI)
  from points_after_lines[where s = ?s and ps = "[]" and kp = ?k and qs = "[?p1]" and p = ?p2
      and rs = "[]" and ts = "[]" and s' = "the (render ?s)" and x = 2 and y = 2,
      THEN conjunct2, rule_format, OF h2] d2
  obtain buf2 where b2: "printBuf (the (render ?s)) = Some buf2"
    "lower_nibble (co (buf2 ! cell_index ?s 2 2)) = co ?k"
    by blast
  from b1 b2 show ?thesis by (simp add: i1 i2)
qed

end
